theory Spec2Isabelle
  imports Main "HOL-Library.Product_Lexorder"
begin

section \<open>The Minesweeper knowledge base of \<^verbatim>\<open>minesweeper.py\<close>\<close>

text \<open>
  A cell is a pair \<^verbatim>\<open>(i, j)\<close> of Python integers: row and column.
\<close>

type_synonym cell = "int \<times> int"

text \<open>
  Python leaves the order in which a \<^verbatim>\<open>set\<close> is iterated unspecified. Every
  function that runs a \<^verbatim>\<open>for\<close> loop over a set takes that order as its first
  argument: a function from the set to the list of its elements as the loop meets them.
  \<open>iteration\<close> says what every Python iteration satisfies: each element once.
\<close>

type_synonym order = "cell set \<Rightarrow> cell list"

definition iteration :: "order \<Rightarrow> bool" where
  "iteration ord \<longleftrightarrow> (\<forall>S. finite S \<longrightarrow> set (ord S) = S \<and> distinct (ord S))"

subsection \<open>class Minesweeper: the board that answers the observations\<close>

text \<open>
  \<^verbatim>\<open>__init__\<close> keeps \<^verbatim>\<open>self.board[i][j]\<close> true exactly for the cells of
  \<^verbatim>\<open>self.mines\<close> (lines 25 to 27), so the board is the set of its mined cells.
\<close>

record Minesweeper =
  board_height :: int
  board_width :: int
  board :: "cell set"

definition is_mine :: "Minesweeper \<Rightarrow> cell \<Rightarrow> bool" where
  "is_mine g c \<longleftrightarrow> c \<in> board g"

text \<open>
  \<^verbatim>\<open>nearby_mines\<close>: the two \<^verbatim>\<open>range\<close> loops over rows and columns, skipping the cell
  itself, counting the cells in bounds that hold a mine.
\<close>

definition nearby_mines :: "Minesweeper \<Rightarrow> cell \<Rightarrow> int" where
  "nearby_mines g c =
     fold (\<lambda>i n. fold (\<lambda>j n.
              if (i, j) = c then n
              else if 0 \<le> i \<and> i < board_height g \<and> 0 \<le> j \<and> j < board_width g
                then (if (i, j) \<in> board g then n + 1 else n)
                else n)
            [snd c - 1 .. snd c + 1] n)
          [fst c - 1 .. fst c + 1] 0"

subsection \<open>class Sentence\<close>

record Sentence =
  cells :: "cell set"
  count :: int

text \<open>\<^verbatim>\<open>__eq__\<close> compares cells and count: it is the equality of the record.\<close>

definition known_mines :: "Sentence \<Rightarrow> cell set option" where
  "known_mines s = (if int (card (cells s)) = count s then Some (cells s) else None)"

definition known_safes :: "Sentence \<Rightarrow> cell set option" where
  "known_safes s = (if count s = 0 then Some (cells s) else None)"

definition sentence_mark_mine :: "cell \<Rightarrow> Sentence \<Rightarrow> Sentence" where
  "sentence_mark_mine c s =
     (if c \<in> cells s then s\<lparr>cells := cells s - {c}, count := count s - 1\<rparr> else s)"

definition sentence_mark_safe :: "cell \<Rightarrow> Sentence \<Rightarrow> Sentence" where
  "sentence_mark_safe c s =
     (if c \<in> cells s then s\<lparr>cells := cells s - {c}\<rparr> else s)"

subsection \<open>class MinesweeperAI\<close>

text \<open>
  The sentences are mutable objects shared between \<^verbatim>\<open>self.knowledge\<close>, its copies
  \<^verbatim>\<open>copy_knowledge\<close> and local variables. The state therefore holds a store of
  Sentence objects; a reference is an index into it, \<^verbatim>\<open>Sentence(...)\<close> appends a new
  object, and \<open>knowledge\<close> is the list of references.
\<close>

record MinesweeperAI =
  height :: int
  width :: int
  moves_made :: "cell set"
  mines :: "cell set"
  safes :: "cell set"
  knowledge :: "nat list"
  store :: "Sentence list"

datatype error = ValueError

definition init :: "int \<Rightarrow> int \<Rightarrow> MinesweeperAI" where
  "init h w = \<lparr>height = h, width = w, moves_made = {}, mines = {}, safes = {},
               knowledge = [], store = []\<rparr>"

text \<open>\<^verbatim>\<open>Sentence(cells, count)\<close>: a new object, and the reference to it.\<close>

definition new_Sentence :: "cell set \<Rightarrow> int \<Rightarrow> MinesweeperAI \<Rightarrow> nat \<times> MinesweeperAI" where
  "new_Sentence cs n st =
     (length (store st), st\<lparr>store := store st @ [\<lparr>cells = cs, count = n\<rparr>]\<rparr>)"

text \<open>Calling a mutating method on the object behind a reference.\<close>

definition update_at :: "(Sentence \<Rightarrow> Sentence) \<Rightarrow> nat \<Rightarrow> Sentence list \<Rightarrow> Sentence list" where
  "update_at f a h = h[a := f (h ! a)]"

definition mark_mine :: "cell \<Rightarrow> MinesweeperAI \<Rightarrow> MinesweeperAI" where
  "mark_mine c st =
     st\<lparr>mines := insert c (mines st),
        store := fold (update_at (sentence_mark_mine c)) (knowledge st) (store st)\<rparr>"

definition mark_safe :: "cell \<Rightarrow> MinesweeperAI \<Rightarrow> MinesweeperAI" where
  "mark_safe c st =
     st\<lparr>safes := insert c (safes st),
        store := fold (update_at (sentence_mark_safe c)) (knowledge st) (store st)\<rparr>"

text \<open>\<^verbatim>\<open>sentence(cell)\<close>: the neighbours of the cell that lie on the board.\<close>

definition sentence :: "MinesweeperAI \<Rightarrow> cell \<Rightarrow> cell set" where
  "sentence st c =
     fold (\<lambda>i cs. fold (\<lambda>j cs.
              if (i, j) = c then cs
              else if 0 \<le> i \<and> i < height st \<and> 0 \<le> j \<and> j < width st
                then insert (i, j) cs
                else cs)
            [snd c - 1 .. snd c + 1] cs)
          [fst c - 1 .. fst c + 1] {}"

text \<open>
  \<^verbatim>\<open>check(sentence)\<close>. \<^verbatim>\<open>known_safes\<close> is read first and its cells marked; the
  marking changes the sentence itself when it is in the knowledge list, and
  \<^verbatim>\<open>known_mines\<close> is read from the sentence as it is after that.
\<close>

fun check :: "order \<Rightarrow> nat option \<Rightarrow> MinesweeperAI \<Rightarrow> MinesweeperAI" where
  "check ord None st = st"
| "check ord (Some a) st =
     (let st1 = (case known_safes (store st ! a) of
                   None \<Rightarrow> st
                 | Some safe \<Rightarrow> fold mark_safe (ord safe) st)
      in (case known_mines (store st1 ! a) of
            None \<Rightarrow> st1
          | Some ms \<Rightarrow> fold mark_mine (ord ms) st1))"

text \<open>
  Lines 200 to 212 of \<^verbatim>\<open>add_knowledge\<close>: the neighbours without the cells known
  safe or known mines, and the count less one for each known mine discarded.
\<close>

definition discard_known :: "MinesweeperAI \<Rightarrow> cell \<Rightarrow> cell set \<times> int \<Rightarrow> cell set \<times> int" where
  "discard_known st i acc =
     (if i \<in> safes st then (fst acc - {i}, snd acc)
      else if i \<in> mines st then (fst acc - {i}, snd acc - 1)
      else acc)"

definition observation :: "order \<Rightarrow> cell \<Rightarrow> int \<Rightarrow> MinesweeperAI \<Rightarrow> cell set \<times> int" where
  "observation ord c n st =
     (let cell_set = sentence st c
      in fold (discard_known st) (ord cell_set) (cell_set, n))"

text \<open>
  \<^verbatim>\<open>self.knowledge.remove(x)\<close> deletes the first element equal to \<open>x\<close> under
  \<^verbatim>\<open>__eq__\<close> and raises \<^verbatim>\<open>ValueError\<close> when there is none;
  \<^verbatim>\<open>x in self.knowledge\<close> uses the same equality.
\<close>

fun list_remove :: "Sentence list \<Rightarrow> nat \<Rightarrow> nat list \<Rightarrow> nat list option" where
  "list_remove h a [] = None"
| "list_remove h a (k # ks) =
     (if h ! k = h ! a then Some ks
      else map_option ((#) k) (list_remove h a ks))"

definition list_contains :: "Sentence list \<Rightarrow> nat \<Rightarrow> nat list \<Rightarrow> bool" where
  "list_contains h a ks \<longleftrightarrow> (\<exists>k \<in> set ks. h ! k = h ! a)"

text \<open>
  Lines 223 to 234: one round of the first loop, for the sentence \<open>sent\<close> of the
  copied list. Only \<open>sent\<close> itself is changed; the cells join \<open>safes\<close> or \<open>mines\<close>
  without being taken out of the other sentences.
\<close>

definition resolve_safe :: "nat \<Rightarrow> cell \<Rightarrow> MinesweeperAI \<Rightarrow> MinesweeperAI" where
  "resolve_safe a c st =
     st\<lparr>safes := insert c (safes st), store := update_at (sentence_mark_safe c) a (store st)\<rparr>"

definition resolve_mine :: "nat \<Rightarrow> cell \<Rightarrow> MinesweeperAI \<Rightarrow> MinesweeperAI" where
  "resolve_mine a c st =
     st\<lparr>mines := insert c (mines st), store := update_at (sentence_mark_mine c) a (store st)\<rparr>"

definition resolve_cells :: "order \<Rightarrow> nat \<Rightarrow> MinesweeperAI \<Rightarrow> MinesweeperAI" where
  "resolve_cells ord a st =
     (let cpy_sent = cells (store st ! a)
      in if count (store st ! a) = 0 then fold (resolve_safe a) (ord cpy_sent) st
         else if int (card (cells (store st ! a))) = count (store st ! a)
           then fold (resolve_mine a) (ord cpy_sent) st
         else st)"

definition resolve :: "order \<Rightarrow> nat \<Rightarrow> MinesweeperAI \<Rightarrow> error + MinesweeperAI" where
  "resolve ord a st =
     (let st1 = resolve_cells ord a st
      in if card (cells (store st1 ! a)) = 0
         then (case list_remove (store st1) a (knowledge st1) of
                 None \<Rightarrow> Inl ValueError
               | Some ks \<Rightarrow> Inr (st1\<lparr>knowledge := ks\<rparr>))
         else Inr st1)"

fun resolve_all :: "order \<Rightarrow> nat list \<Rightarrow> MinesweeperAI \<Rightarrow> error + MinesweeperAI" where
  "resolve_all ord [] st = Inr st"
| "resolve_all ord (a # as) st =
     (case resolve ord a st of
        Inl e \<Rightarrow> Inl e
      | Inr st1 \<Rightarrow> resolve_all ord as st1)"

text \<open>
  Lines 239 to 249: the body of the double loop for the pair \<open>set_o\<close>, \<open>set_s\<close> of
  the copied list.
\<close>

definition infer :: "order \<Rightarrow> nat \<Rightarrow> nat \<Rightarrow> MinesweeperAI \<Rightarrow> MinesweeperAI" where
  "infer ord set_o set_s st =
     (if store st ! set_o = store st ! set_s then st
      else if cells (store st ! set_s) \<subset> cells (store st ! set_o) then
        (let new_set = cells (store st ! set_o) - cells (store st ! set_s);
             new_count = count (store st ! set_o) - count (store st ! set_s);
             (new_sentence, st1) = new_Sentence new_set new_count st;
             st2 = (if list_contains (store st1) set_s (knowledge st1)
                    then st1\<lparr>knowledge := the (list_remove (store st1) set_s (knowledge st1))\<rparr>
                    else st1);
             st3 = st2\<lparr>knowledge := knowledge st2 @ [new_sentence]\<rparr>
         in check ord (Some new_sentence) st3)
      else st)"

definition infer_all :: "order \<Rightarrow> nat list \<Rightarrow> MinesweeperAI \<Rightarrow> MinesweeperAI" where
  "infer_all ord copy_knowledge st =
     fold (\<lambda>set_o. fold (infer ord set_o) copy_knowledge) copy_knowledge st"

text \<open>
  \<^verbatim>\<open>add_knowledge(cell, count)\<close>. The prints at its end are left out.
\<close>

definition add_knowledge :: "order \<Rightarrow> cell \<Rightarrow> int \<Rightarrow> MinesweeperAI \<Rightarrow> error + MinesweeperAI" where
  "add_knowledge ord c n st =
     (let st1 = st\<lparr>moves_made := insert c (moves_made st), safes := insert c (safes st)\<rparr>;
          (cell_set, n') = observation ord c n st1;
          (sent, st2) = new_Sentence cell_set n' st1;
          st3 = check ord (Some sent) st2;
          st4 = st3\<lparr>knowledge := knowledge st3 @ [sent]\<rparr>;
          st5 = fold mark_safe (ord (safes st4)) st4;
          st6 = fold mark_mine (ord (mines st5)) st5
      in (case resolve_all ord (knowledge st6) st6 of
            Inl e \<Rightarrow> Inl e
          | Inr st7 \<Rightarrow> Inr (infer_all ord (knowledge st7) st7)))"

text \<open>
  \<^verbatim>\<open>make_safe_move\<close>: the first cell of \<^verbatim>\<open>self.safes\<close>, in the order of the
  iteration, that is not a move made. The method assigns to nothing; it returns the
  move together with the state it leaves.
\<close>

definition make_safe_move :: "order \<Rightarrow> MinesweeperAI \<Rightarrow> cell option \<times> MinesweeperAI" where
  "make_safe_move ord st = (find (\<lambda>move. move \<notin> moves_made st) (ord (safes st)), st)"

text \<open>
  \<^verbatim>\<open>make_random_move\<close>: \<^verbatim>\<open>random.choice\<close> is the argument \<open>choice\<close>. The print of
  the move is left out.
\<close>

definition make_random_move ::
  "(cell list \<Rightarrow> cell) \<Rightarrow> MinesweeperAI \<Rightarrow> cell option \<times> MinesweeperAI" where
  "make_random_move choice st =
     (let pos_moves = [(i, j). i \<leftarrow> [0 .. height st - 1], j \<leftarrow> [0 .. width st - 1],
                        (i, j) \<notin> mines st \<and> (i, j) \<notin> moves_made st]
      in if length pos_moves \<noteq> 0 then (Some (choice pos_moves), st) else (None, st))"

subsection \<open>Sequences of calls\<close>

text \<open>The driver: one \<^verbatim>\<open>add_knowledge\<close> for each revealed cell and its count.\<close>

fun observe_all :: "order \<Rightarrow> (cell \<times> int) list \<Rightarrow> MinesweeperAI \<Rightarrow> error + MinesweeperAI" where
  "observe_all ord [] st = Inr st"
| "observe_all ord ((c, n) # obs) st =
     (case add_knowledge ord c n st of
        Inl e \<Rightarrow> Inl e
      | Inr st1 \<Rightarrow> observe_all ord obs st1)"

text \<open>Any sequence of calls of the methods of the class.\<close>

datatype call =
  Add_knowledge cell int | Mark_mine cell | Mark_safe cell | Make_safe_move | Make_random_move

fun run_call :: "order \<Rightarrow> (cell list \<Rightarrow> cell) \<Rightarrow> call \<Rightarrow> MinesweeperAI \<Rightarrow> error + MinesweeperAI" where
  "run_call ord choice (Add_knowledge c n) st = add_knowledge ord c n st"
| "run_call ord choice (Mark_mine c) st = Inr (mark_mine c st)"
| "run_call ord choice (Mark_safe c) st = Inr (mark_safe c st)"
| "run_call ord choice Make_safe_move st = Inr (snd (make_safe_move ord st))"
| "run_call ord choice Make_random_move st = Inr (snd (make_random_move choice st))"

fun run_calls ::
  "order \<Rightarrow> (cell list \<Rightarrow> cell) \<Rightarrow> call list \<Rightarrow> MinesweeperAI \<Rightarrow> error + MinesweeperAI" where
  "run_calls ord choice [] st = Inr st"
| "run_calls ord choice (x # xs) st =
     (case run_call ord choice x st of
        Inl e \<Rightarrow> Inl e
      | Inr st1 \<Rightarrow> run_calls ord choice xs st1)"

text \<open>The sentences of the knowledge list, read through their references.\<close>

definition sentences :: "MinesweeperAI \<Rightarrow> Sentence list" where
  "sentences st = map ((!) (store st)) (knowledge st)"

subsection \<open>What the claims speak of\<close>

text \<open>The cells around a cell that lie on a board of the given height and width.\<close>

definition neighbours :: "int \<Rightarrow> int \<Rightarrow> cell \<Rightarrow> cell set" where
  "neighbours h w c =
     {(i, j). fst c - 1 \<le> i \<and> i \<le> fst c + 1 \<and> snd c - 1 \<le> j \<and> j \<le> snd c + 1 \<and>
              (i, j) \<noteq> c \<and> 0 \<le> i \<and> i < h \<and> 0 \<le> j \<and> j < w}"

text \<open>
  The precondition of \<^verbatim>\<open>add_knowledge\<close>: the cell is a safe cell of the board and
  the count is what the board reports for it.
\<close>

definition truthful :: "Minesweeper \<Rightarrow> (cell \<times> int) list \<Rightarrow> bool" where
  "truthful g obs \<longleftrightarrow> (\<forall>(c, n) \<in> set obs. \<not> is_mine g c \<and> n = nearby_mines g c)"

text \<open>
  A placement of mines agrees with the observations when it makes each of them
  truthful. A cell is derivably safe (a derivable mine) when it is safe (a mine) in
  every placement that agrees with the observations.
\<close>

definition derivable_safe :: "int \<Rightarrow> int \<Rightarrow> (cell \<times> int) list \<Rightarrow> cell \<Rightarrow> bool" where
  "derivable_safe h w obs x \<longleftrightarrow>
     (\<forall>M. truthful \<lparr>board_height = h, board_width = w, board = M\<rparr> obs \<longrightarrow> x \<notin> M)"

definition derivable_mine :: "int \<Rightarrow> int \<Rightarrow> (cell \<times> int) list \<Rightarrow> cell \<Rightarrow> bool" where
  "derivable_mine h w obs x \<longleftrightarrow>
     (\<forall>M. truthful \<lparr>board_height = h, board_width = w, board = M\<rparr> obs \<longrightarrow> x \<in> M)"

text \<open>
  The references of the knowledge list are distinct and point into the store.
\<close>

definition well_formed :: "MinesweeperAI \<Rightarrow> bool" where
  "well_formed st \<longleftrightarrow> distinct (knowledge st) \<and> (\<forall>a \<in> set (knowledge st). a < length (store st))"

text \<open>A sentence holds of a placement of mines \<open>M\<close>.\<close>

definition holds :: "cell set \<Rightarrow> Sentence \<Rightarrow> bool" where
  "holds M s \<longleftrightarrow> finite (cells s) \<and> count s = int (card (cells s \<inter> M))"

text \<open>
  All the engine knows is true of the placement \<open>M\<close>: every Sentence object ever
  made, in the knowledge list or not, and the two sets of cells.
\<close>

definition sound :: "cell set \<Rightarrow> MinesweeperAI \<Rightarrow> bool" where
  "sound M st \<longleftrightarrow>
     finite (safes st) \<and> finite (mines st) \<and> safes st \<inter> M = {} \<and> mines st \<subseteq> M \<and>
     (\<forall>s \<in> set (store st). holds M s)"

text \<open>The sets and the store of \<open>st'\<close> extend those of \<open>st\<close>.\<close>

definition grown :: "MinesweeperAI \<Rightarrow> MinesweeperAI \<Rightarrow> bool" where
  "grown st st' \<longleftrightarrow>
     height st' = height st \<and> width st' = width st \<and> moves_made st \<subseteq> moves_made st' \<and>
     safes st \<subseteq> safes st' \<and> mines st \<subseteq> mines st' \<and> length (store st) \<le> length (store st')"

text \<open>
  The state in the body of the double loop after line 248, where the new sentence has
  been appended and \<^verbatim>\<open>check\<close> is about to be called on it.
\<close>

definition derive :: "nat \<Rightarrow> nat \<Rightarrow> MinesweeperAI \<Rightarrow> MinesweeperAI" where
  "derive set_o set_s st =
     (let st1 = st\<lparr>store := store st @ [\<lparr>cells = cells (store st ! set_o) - cells (store st ! set_s),
                      count = count (store st ! set_o) - count (store st ! set_s)\<rparr>]\<rparr>;
          st2 = (if list_contains (store st1) set_s (knowledge st1)
                 then st1\<lparr>knowledge := the (list_remove (store st1) set_s (knowledge st1))\<rparr>
                 else st1)
      in st2\<lparr>knowledge := knowledge st2 @ [length (store st)]\<rparr>)"

text \<open>
  The state of \<^verbatim>\<open>add_knowledge\<close> after line 220, before its two loops over the
  knowledge list.
\<close>

definition observed :: "order \<Rightarrow> cell \<Rightarrow> int \<Rightarrow> MinesweeperAI \<Rightarrow> MinesweeperAI" where
  "observed ord c n st =
     (let st1 = st\<lparr>moves_made := insert c (moves_made st), safes := insert c (safes st)\<rparr>;
          st2 = st1\<lparr>store := store st1 @ [\<lparr>cells = fst (observation ord c n st1),
                                               count = snd (observation ord c n st1)\<rparr>]\<rparr>;
          st3 = check ord (Some (length (store st))) st2;
          st4 = st3\<lparr>knowledge := knowledge st3 @ [length (store st)]\<rparr>;
          st5 = fold mark_safe (ord (safes st4)) st4
      in fold mark_mine (ord (mines st5)) st5)"

text \<open>
  What resolving a sentence at once gives is in the state: its cells are in
  \<^verbatim>\<open>safes\<close> when its count is 0, in \<^verbatim>\<open>mines\<close> when its count is the number of its
  cells.
\<close>

definition recorded :: "Sentence \<Rightarrow> MinesweeperAI \<Rightarrow> bool" where
  "recorded s st \<longleftrightarrow>
     (count s = 0 \<longrightarrow> cells s \<subseteq> safes st) \<and>
     (int (card (cells s)) = count s \<longrightarrow> cells s \<subseteq> mines st)"

text \<open>The sentence of lines 243 to 245, made from \<^verbatim>\<open>set_o\<close> and \<^verbatim>\<open>set_s\<close>.\<close>

definition difference :: "Sentence \<Rightarrow> Sentence \<Rightarrow> Sentence" where
  "difference so ss = \<lparr>cells = cells so - cells ss, count = count so - count ss\<rparr>"

text \<open>
  The state of the double loop after the rounds for the pairs \<open>ps\<close>, each a pair of
  \<^verbatim>\<open>set_o\<close> and \<^verbatim>\<open>set_s\<close>.
\<close>

definition rounds :: "order \<Rightarrow> (nat \<times> nat) list \<Rightarrow> MinesweeperAI \<Rightarrow> MinesweeperAI" where
  "rounds ord ps st = fold (\<lambda>p. infer ord (fst p) (snd p)) ps st"

text \<open>
  The state of the call \<^verbatim>\<open>add_knowledge(c, n)\<close> that follows the observations
  \<open>obs\<close>, at line 235, where its double loop starts.
\<close>

definition before_double_loop ::
  "order \<Rightarrow> (cell \<times> int) list \<Rightarrow> cell \<Rightarrow> int \<Rightarrow> MinesweeperAI \<Rightarrow> error + MinesweeperAI" where
  "before_double_loop ord obs c n st0 =
     (case observe_all ord obs st0 of
        Inl e \<Rightarrow> Inl e
      | Inr st \<Rightarrow> resolve_all ord (knowledge (observed ord c n st)) (observed ord c n st))"

section \<open>Lemmas about the operations\<close>

subsection \<open>Fields of the state after a marking\<close>

lemma sentence_mark_safe_eq: "sentence_mark_safe c s = s\<lparr>cells := cells s - {c}\<rparr>"
  by (cases "c \<in> cells s") (simp_all add: sentence_mark_safe_def)

lemma cells_sentence_mark_safe [simp]: "cells (sentence_mark_safe c s) = cells s - {c}"
  by (simp add: sentence_mark_safe_eq)

lemma count_sentence_mark_safe [simp]: "count (sentence_mark_safe c s) = count s"
  by (simp add: sentence_mark_safe_eq)

lemma cells_sentence_mark_mine [simp]: "cells (sentence_mark_mine c s) = cells s - {c}"
  by (simp add: sentence_mark_mine_def)

lemma count_sentence_mark_mine [simp]:
  "count (sentence_mark_mine c s) = (if c \<in> cells s then count s - 1 else count s)"
  by (simp add: sentence_mark_mine_def)

lemma length_update_at [simp]: "length (update_at f a h) = length h"
  by (simp add: update_at_def)

lemma length_fold_update_at [simp]: "length (fold (update_at f) ks h) = length h"
  by (induction ks arbitrary: h) simp_all

lemma nth_update_at: "i < length h \<Longrightarrow> update_at f a h ! i = (if i = a then f (h ! i) else h ! i)"
  by (simp add: update_at_def)

lemma nth_fold_update_at:
  "distinct ks \<Longrightarrow> i < length h \<Longrightarrow>
   fold (update_at f) ks h ! i = (if i \<in> set ks then f (h ! i) else h ! i)"
  by (induction ks arbitrary: h) (auto simp: nth_update_at)

lemma set_update_at: "\<forall>s \<in> set h. P s \<Longrightarrow> (\<And>s. P s \<Longrightarrow> P (f s)) \<Longrightarrow> \<forall>s \<in> set (update_at f a h). P s"
proof (cases "a < length h")
  case True
  assume h: "\<forall>s \<in> set h. P s" and f: "\<And>s. P s \<Longrightarrow> P (f s)"
  from True h have "P (h ! a)" by simp
  then have "P (f (h ! a))" by (rule f)
  with h show ?thesis
    unfolding update_at_def using set_update_subset_insert [of h a "f (h ! a)"] by auto
next
  case False
  assume "\<forall>s \<in> set h. P s"
  with False show ?thesis by (simp add: update_at_def list_update_beyond)
qed

lemma set_fold_update_at:
  "\<forall>s \<in> set h. P s \<Longrightarrow> (\<And>s. P s \<Longrightarrow> P (f s)) \<Longrightarrow> \<forall>s \<in> set (fold (update_at f) ks h). P s"
proof (induction ks arbitrary: h)
  case Nil
  then show ?case by simp
next
  case (Cons k ks)
  have "\<forall>s \<in> set (update_at f k h). P s"
    by (rule set_update_at) (use Cons.prems in auto)
  then show ?case using Cons.IH Cons.prems(2) by simp
qed

text \<open>The fields of the state after \<^verbatim>\<open>mark_safe\<close>, \<^verbatim>\<open>mark_mine\<close> and \<^verbatim>\<open>check\<close>.\<close>

lemma mark_safe_fields [simp]:
  "height (mark_safe c st) = height st" "width (mark_safe c st) = width st"
  "moves_made (mark_safe c st) = moves_made st" "mines (mark_safe c st) = mines st"
  "safes (mark_safe c st) = insert c (safes st)" "knowledge (mark_safe c st) = knowledge st"
  "length (store (mark_safe c st)) = length (store st)"
  by (simp_all add: mark_safe_def)

lemma mark_mine_fields [simp]:
  "height (mark_mine c st) = height st" "width (mark_mine c st) = width st"
  "moves_made (mark_mine c st) = moves_made st" "safes (mark_mine c st) = safes st"
  "mines (mark_mine c st) = insert c (mines st)" "knowledge (mark_mine c st) = knowledge st"
  "length (store (mark_mine c st)) = length (store st)"
  by (simp_all add: mark_mine_def)

lemma fold_mark_safe_fields [simp]:
  "height (fold mark_safe cs st) = height st" "width (fold mark_safe cs st) = width st"
  "moves_made (fold mark_safe cs st) = moves_made st" "mines (fold mark_safe cs st) = mines st"
  "safes (fold mark_safe cs st) = set cs \<union> safes st"
  "knowledge (fold mark_safe cs st) = knowledge st"
  "length (store (fold mark_safe cs st)) = length (store st)"
  by (induction cs arbitrary: st) auto

lemma fold_mark_mine_fields [simp]:
  "height (fold mark_mine cs st) = height st" "width (fold mark_mine cs st) = width st"
  "moves_made (fold mark_mine cs st) = moves_made st" "safes (fold mark_mine cs st) = safes st"
  "mines (fold mark_mine cs st) = set cs \<union> mines st"
  "knowledge (fold mark_mine cs st) = knowledge st"
  "length (store (fold mark_mine cs st)) = length (store st)"
  by (induction cs arbitrary: st) auto

lemma check_fields [simp]:
  "height (check ord a st) = height st" "width (check ord a st) = width st"
  "moves_made (check ord a st) = moves_made st" 
  "knowledge (check ord a st) = knowledge st"
  "length (store (check ord a st)) = length (store st)"
  by (cases a; simp add: Let_def split: option.splits)+

lemma check_grows: "safes st \<subseteq> safes (check ord a st)" "mines st \<subseteq> mines (check ord a st)"
  by (cases a; auto simp add: Let_def split: option.splits)+

subsection \<open>The neighbourhood and the sentence of an observation\<close>

text \<open>The two nested \<^verbatim>\<open>range\<close> loops are one loop over the pairs.\<close>

lemma if_chain2: "(if p then x else if q then y else x) = (if \<not> p \<and> q then y else x)"
  by simp

lemma if_chain3:
  "(if p then x else if q then (if r then y else x) else x) = (if \<not> p \<and> q \<and> r then y else x)"
  by simp

lemma fold_nested_product:
  "fold (\<lambda>i. fold (\<lambda>j. F i j) js) is x = fold (\<lambda>p. F (fst p) (snd p)) (List.product is js) x"
  by (induction "is" arbitrary: x) (simp_all add: fold_map comp_def)

lemma fold_insert_filter:
  "fold (\<lambda>p cs. if Q p then insert p cs else cs) xs A = A \<union> {p \<in> set xs. Q p}"
  by (induction xs arbitrary: A) auto

lemma fold_count_filter:
  "distinct xs \<Longrightarrow>
   fold (\<lambda>p n. if Q p then n + 1 else n) xs (k::int) = k + int (card {p \<in> set xs. Q p})"
proof (induction xs arbitrary: k)
  case Nil
  then show ?case by simp
next
  case (Cons x xs)
  have fin: "finite {p \<in> set xs. Q p}" by simp
  show ?case
  proof (cases "Q x")
    case True
    have "{p \<in> set (x # xs). Q p} = insert x {p \<in> set xs. Q p}" using True by auto
    moreover have "x \<notin> {p \<in> set xs. Q p}" using Cons.prems by simp
    ultimately have "card {p \<in> set (x # xs). Q p} = Suc (card {p \<in> set xs. Q p})"
      using fin by simp
    then show ?thesis using True Cons by simp
  next
    case False
    have "{p \<in> set (x # xs). Q p} = {p \<in> set xs. Q p}" using False by auto
    then show ?thesis using False Cons by simp
  qed
qed

lemma sentence_eq: "sentence st c = neighbours (height st) (width st) c"
proof -
  let ?Q = "\<lambda>p. (fst p, snd p) \<noteq> c \<and> 0 \<le> fst p \<and> fst p < height st \<and> 0 \<le> snd p \<and> snd p < width st"
  let ?xs = "List.product [fst c - 1 .. fst c + 1] [snd c - 1 .. snd c + 1]"
  have "sentence st c = fold (\<lambda>p cs. if ?Q p then insert (fst p, snd p) cs else cs) ?xs {}"
    unfolding sentence_def by (simp add: if_chain2 fold_nested_product)
  also have "\<dots> = {p \<in> set ?xs. ?Q p}"
    by (simp only: prod.collapse fold_insert_filter) simp
  also have "\<dots> = neighbours (height st) (width st) c"
    by (auto simp: neighbours_def)
  finally show ?thesis .
qed

lemma finite_neighbours [simp]: "finite (neighbours h w c)"
proof -
  have "neighbours h w c \<subseteq> {fst c - 1 .. fst c + 1} \<times> {snd c - 1 .. snd c + 1}"
    by (auto simp: neighbours_def)
  then show ?thesis by (rule finite_subset) simp
qed

lemma nearby_mines_eq:
  "nearby_mines g c = int (card (neighbours (board_height g) (board_width g) c \<inter> board g))"
proof -
  let ?Q = "\<lambda>p. (fst p, snd p) \<noteq> c \<and> 0 \<le> fst p \<and> fst p < board_height g \<and> 0 \<le> snd p \<and>
                 snd p < board_width g \<and> (fst p, snd p) \<in> board g"
  let ?xs = "List.product [fst c - 1 .. fst c + 1] [snd c - 1 .. snd c + 1]"
  have "nearby_mines g c = fold (\<lambda>p n. if ?Q p then n + 1 else n) ?xs 0"
    unfolding nearby_mines_def by (simp add: if_chain3 fold_nested_product)
  also have "\<dots> = int (card {p \<in> set ?xs. ?Q p})"
    by (subst fold_count_filter) (simp_all add: distinct_product)
  also have "{p \<in> set ?xs. ?Q p} = neighbours (board_height g) (board_width g) c \<inter> board g"
    by (auto simp: neighbours_def)
  finally show ?thesis .
qed

text \<open>The loop of lines 205 to 211 over the neighbours.\<close>

lemma fold_discard_known:
  "distinct xs \<Longrightarrow>
   fold (discard_known st) xs (A, n) =
     (A - (set xs \<inter> (safes st \<union> mines st)),
      n - int (card {x \<in> set xs. x \<notin> safes st \<and> x \<in> mines st}))"
proof (induction xs arbitrary: A n)
  case Nil
  then show ?case by simp
next
  case (Cons x xs)
  let ?K = "\<lambda>ys. {y \<in> set ys. y \<notin> safes st \<and> y \<in> mines st}"
  have fin: "finite (?K xs)" by simp
  have nin: "x \<notin> ?K xs" using Cons.prems by simp
  consider (safe) "x \<in> safes st" | (mine) "x \<notin> safes st" "x \<in> mines st"
    | (none) "x \<notin> safes st" "x \<notin> mines st" by blast
  then show ?case
  proof cases
    case safe
    then have "?K (x # xs) = ?K xs" by auto
    then show ?thesis using safe Cons by (auto simp: discard_known_def)
  next
    case mine
    then have "?K (x # xs) = insert x (?K xs)" by auto
    then have "card (?K (x # xs)) = Suc (card (?K xs))" using fin nin by simp
    then show ?thesis using mine Cons by (auto simp: discard_known_def)
  next
    case none
    then have "?K (x # xs) = ?K xs" by auto
    then show ?thesis using none Cons by (auto simp: discard_known_def)
  qed
qed

lemma observation_eq:
  assumes "iteration ord"
  shows "observation ord c n st =
           (neighbours (height st) (width st) c - safes st - mines st,
            n - int (card {x \<in> neighbours (height st) (width st) c. x \<notin> safes st \<and> x \<in> mines st}))"
proof -
  let ?N = "neighbours (height st) (width st) c"
  from assms have "set (ord ?N) = ?N" "distinct (ord ?N)"
    by (simp_all add: iteration_def)
  then show ?thesis
    unfolding observation_def Let_def sentence_eq
    by (subst fold_discard_known) auto
qed

lemma iteration_sorted: "iteration sorted_list_of_set"
  by (simp add: iteration_def)

subsection \<open>Sentences that hold of a placement of mines\<close>

lemma holds_mark_safe: "c \<notin> M \<Longrightarrow> holds M s \<Longrightarrow> holds M (sentence_mark_safe c s)"
proof -
  assume c: "c \<notin> M" and h: "holds M s"
  from c have "(cells s - {c}) \<inter> M = cells s \<inter> M" by auto
  with h show ?thesis by (simp add: holds_def)
qed

lemma holds_mark_mine: "c \<in> M \<Longrightarrow> holds M s \<Longrightarrow> holds M (sentence_mark_mine c s)"
proof (cases "c \<in> cells s")
  case True
  assume c: "c \<in> M" and h: "holds M s"
  from h have fin: "finite (cells s \<inter> M)" by (simp add: holds_def)
  have eq: "(cells s - {c}) \<inter> M = (cells s \<inter> M) - {c}" by auto
  have "c \<in> cells s \<inter> M" using True c by simp
  then have "card ((cells s \<inter> M) - {c}) = card (cells s \<inter> M) - 1" "card (cells s \<inter> M) > 0"
    using fin by (auto simp: card_gt_0_iff)
  with h True eq show ?thesis by (simp add: holds_def)
next
  case False
  assume "holds M s"
  with False show ?thesis by (simp add: sentence_mark_mine_def)
qed

lemma holds_safe: "holds M s \<Longrightarrow> count s = 0 \<Longrightarrow> cells s \<inter> M = {}"
proof -
  assume h: "holds M s" and c: "count s = 0"
  then have "finite (cells s \<inter> M)" "card (cells s \<inter> M) = 0" by (simp_all add: holds_def)
  then show ?thesis by simp
qed

lemma holds_mine: "holds M s \<Longrightarrow> int (card (cells s)) = count s \<Longrightarrow> cells s \<subseteq> M"
proof -
  assume h: "holds M s" and c: "int (card (cells s)) = count s"
  then have "card (cells s \<inter> M) = card (cells s)" "finite (cells s)" by (simp_all add: holds_def)
  then have "cells s \<inter> M = cells s" by (intro card_subset_eq) auto
  then show ?thesis by auto
qed

lemma holds_bounds: "holds M s \<Longrightarrow> 0 \<le> count s \<and> count s \<le> int (card (cells s))"
  by (auto simp: holds_def intro: card_mono)

lemma holds_difference:
  assumes "holds M so" "holds M ss" "cells ss \<subset> cells so"
  shows "holds M \<lparr>cells = cells so - cells ss, count = count so - count ss\<rparr>"
proof -
  have sub: "cells ss \<inter> M \<subseteq> cells so \<inter> M" using assms(3) by auto
  have fin: "finite (cells so \<inter> M)" "finite (cells ss \<inter> M)" using assms by (simp_all add: holds_def)
  have "(cells so - cells ss) \<inter> M = (cells so \<inter> M) - (cells ss \<inter> M)" by auto
  moreover have "card ((cells so \<inter> M) - (cells ss \<inter> M)) = card (cells so \<inter> M) - card (cells ss \<inter> M)"
    using sub fin by (simp add: card_Diff_subset)
  moreover have "card (cells ss \<inter> M) \<le> card (cells so \<inter> M)" using sub fin by (simp add: card_mono)
  ultimately show ?thesis using assms by (simp add: holds_def)
qed

lemma sound_mark_safe:
  assumes "c \<notin> M" "sound M st"
  shows "sound M (mark_safe c st)"
proof -
  have "\<forall>s \<in> set (fold (update_at (sentence_mark_safe c)) (knowledge st) (store st)). holds M s"
    by (rule set_fold_update_at) (use assms in \<open>simp_all add: sound_def holds_mark_safe\<close>)
  then show ?thesis using assms by (simp add: sound_def mark_safe_def)
qed

lemma sound_mark_mine:
  assumes "c \<in> M" "sound M st"
  shows "sound M (mark_mine c st)"
proof -
  have "\<forall>s \<in> set (fold (update_at (sentence_mark_mine c)) (knowledge st) (store st)). holds M s"
    by (rule set_fold_update_at) (use assms in \<open>simp_all add: sound_def holds_mark_mine\<close>)
  then show ?thesis using assms by (simp add: sound_def mark_mine_def)
qed

lemma sound_fold_mark_safe: "set cs \<inter> M = {} \<Longrightarrow> sound M st \<Longrightarrow> sound M (fold mark_safe cs st)"
  by (induction cs arbitrary: st) (simp_all add: sound_mark_safe)

lemma sound_fold_mark_mine: "set cs \<subseteq> M \<Longrightarrow> sound M st \<Longrightarrow> sound M (fold mark_mine cs st)"
  by (induction cs arbitrary: st) (simp_all add: sound_mark_mine)

lemma sound_nth: "sound M st \<Longrightarrow> a < length (store st) \<Longrightarrow> holds M (store st ! a)"
  by (simp add: sound_def)

lemma iteration_set: "iteration ord \<Longrightarrow> finite S \<Longrightarrow> set (ord S) = S"
  by (simp add: iteration_def)

lemma iteration_distinct: "iteration ord \<Longrightarrow> finite S \<Longrightarrow> distinct (ord S)"
  by (simp add: iteration_def)

lemma holds_finite: "holds M s \<Longrightarrow> finite (cells s)"
  by (simp add: holds_def)

lemma sound_check:
  assumes it: "iteration ord" and s: "sound M st" and a: "a < length (store st)"
  shows "sound M (check ord (Some a) st)"
proof -
  define st1 where "st1 = (case known_safes (store st ! a) of
                   None \<Rightarrow> st | Some safe \<Rightarrow> fold mark_safe (ord safe) st)"
  have h: "holds M (store st ! a)" using s a by (rule sound_nth)
  have s1: "sound M st1"
  proof (cases "count (store st ! a) = 0")
    case True
    have "set (ord (cells (store st ! a))) \<inter> M = {}"
      using holds_safe [OF h True] iteration_set [OF it holds_finite [OF h]] by simp
    then show ?thesis using True s by (simp add: st1_def known_safes_def sound_fold_mark_safe)
  next
    case False
    then show ?thesis using s by (simp add: st1_def known_safes_def)
  qed
  have a1: "a < length (store st1)" using a by (simp add: st1_def split: option.splits)
  have h1: "holds M (store st1 ! a)" using s1 a1 by (rule sound_nth)
  have "sound M (case known_mines (store st1 ! a) of
            None \<Rightarrow> st1 | Some ms \<Rightarrow> fold mark_mine (ord ms) st1)"
  proof (cases "int (card (cells (store st1 ! a))) = count (store st1 ! a)")
    case True
    have "set (ord (cells (store st1 ! a))) \<subseteq> M"
      using holds_mine [OF h1 True] iteration_set [OF it holds_finite [OF h1]] by simp
    then show ?thesis using True s1 by (simp add: known_mines_def sound_fold_mark_mine)
  next
    case False
    then show ?thesis using s1 by (simp add: known_mines_def)
  qed
  then show ?thesis unfolding st1_def by (simp only: check.simps Let_def)
qed

lemma wf_same: "knowledge st' = knowledge st \<Longrightarrow> length (store st') = length (store st) \<Longrightarrow> well_formed st \<Longrightarrow> well_formed st'"
  by (simp add: well_formed_def)

lemma wf_check: "well_formed st \<Longrightarrow> well_formed (check ord a st)"
  by (rule wf_same) simp_all

lemma wf_fold_mark_safe: "well_formed st \<Longrightarrow> well_formed (fold mark_safe cs st)"
  by (rule wf_same) simp_all

lemma wf_fold_mark_mine: "well_formed st \<Longrightarrow> well_formed (fold mark_mine cs st)"
  by (rule wf_same) simp_all

subsection \<open>The first loop of add_knowledge\<close>

lemma resolve_safe_fields [simp]:
  "height (resolve_safe a c st) = height st" "width (resolve_safe a c st) = width st"
  "moves_made (resolve_safe a c st) = moves_made st" "mines (resolve_safe a c st) = mines st"
  "safes (resolve_safe a c st) = insert c (safes st)"
  "knowledge (resolve_safe a c st) = knowledge st"
  "length (store (resolve_safe a c st)) = length (store st)"
  by (simp_all add: resolve_safe_def)

lemma resolve_mine_fields [simp]:
  "height (resolve_mine a c st) = height st" "width (resolve_mine a c st) = width st"
  "moves_made (resolve_mine a c st) = moves_made st" "safes (resolve_mine a c st) = safes st"
  "mines (resolve_mine a c st) = insert c (mines st)"
  "knowledge (resolve_mine a c st) = knowledge st"
  "length (store (resolve_mine a c st)) = length (store st)"
  by (simp_all add: resolve_mine_def)

lemma fold_resolve_safe_fields [simp]:
  "height (fold (resolve_safe a) cs st) = height st" "width (fold (resolve_safe a) cs st) = width st"
  "moves_made (fold (resolve_safe a) cs st) = moves_made st"
  "mines (fold (resolve_safe a) cs st) = mines st"
  "safes (fold (resolve_safe a) cs st) = set cs \<union> safes st"
  "knowledge (fold (resolve_safe a) cs st) = knowledge st"
  "length (store (fold (resolve_safe a) cs st)) = length (store st)"
  by (induction cs arbitrary: st) auto

lemma fold_resolve_mine_fields [simp]:
  "height (fold (resolve_mine a) cs st) = height st" "width (fold (resolve_mine a) cs st) = width st"
  "moves_made (fold (resolve_mine a) cs st) = moves_made st"
  "safes (fold (resolve_mine a) cs st) = safes st"
  "mines (fold (resolve_mine a) cs st) = set cs \<union> mines st"
  "knowledge (fold (resolve_mine a) cs st) = knowledge st"
  "length (store (fold (resolve_mine a) cs st)) = length (store st)"
  by (induction cs arbitrary: st) auto

lemma fold_resolve_safe_other:
  "i \<noteq> a \<Longrightarrow> store (fold (resolve_safe a) cs st) ! i = store st ! i"
  by (induction cs arbitrary: st) (simp_all add: resolve_safe_def update_at_def)

lemma fold_resolve_mine_other:
  "i \<noteq> a \<Longrightarrow> store (fold (resolve_mine a) cs st) ! i = store st ! i"
  by (induction cs arbitrary: st) (simp_all add: resolve_mine_def update_at_def)

lemma sound_resolve_safe: "c \<notin> M \<Longrightarrow> sound M st \<Longrightarrow> sound M (resolve_safe a c st)"
proof -
  assume c: "c \<notin> M" and s: "sound M st"
  have "\<forall>s \<in> set (update_at (sentence_mark_safe c) a (store st)). holds M s"
    by (rule set_update_at) (use c s in \<open>simp_all add: sound_def holds_mark_safe\<close>)
  then show ?thesis using c s by (simp add: sound_def resolve_safe_def)
qed

lemma sound_resolve_mine: "c \<in> M \<Longrightarrow> sound M st \<Longrightarrow> sound M (resolve_mine a c st)"
proof -
  assume c: "c \<in> M" and s: "sound M st"
  have "\<forall>s \<in> set (update_at (sentence_mark_mine c) a (store st)). holds M s"
    by (rule set_update_at) (use c s in \<open>simp_all add: sound_def holds_mark_mine\<close>)
  then show ?thesis using c s by (simp add: sound_def resolve_mine_def)
qed

lemma sound_fold_resolve_safe:
  "set cs \<inter> M = {} \<Longrightarrow> sound M st \<Longrightarrow> sound M (fold (resolve_safe a) cs st)"
  by (induction cs arbitrary: st) (simp_all add: sound_resolve_safe)

lemma sound_fold_resolve_mine:
  "set cs \<subseteq> M \<Longrightarrow> sound M st \<Longrightarrow> sound M (fold (resolve_mine a) cs st)"
  by (induction cs arbitrary: st) (simp_all add: sound_resolve_mine)

lemma resolve_cells_fields [simp]:
  "height (resolve_cells ord a st) = height st" "width (resolve_cells ord a st) = width st"
  "moves_made (resolve_cells ord a st) = moves_made st"
  "knowledge (resolve_cells ord a st) = knowledge st"
  "length (store (resolve_cells ord a st)) = length (store st)"
  by (simp_all add: resolve_cells_def Let_def)

lemma resolve_cells_grows:
  "safes st \<subseteq> safes (resolve_cells ord a st)" "mines st \<subseteq> mines (resolve_cells ord a st)"
  by (auto simp: resolve_cells_def Let_def)

lemma resolve_cells_other:
  "i \<noteq> a \<Longrightarrow> store (resolve_cells ord a st) ! i = store st ! i"
  by (simp add: resolve_cells_def Let_def fold_resolve_safe_other fold_resolve_mine_other)

lemma sound_resolve_cells:
  assumes it: "iteration ord" and s: "sound M st" and a: "a < length (store st)"
  shows "sound M (resolve_cells ord a st)"
proof -
  have h: "holds M (store st ! a)" using s a by (rule sound_nth)
  note cs = iteration_set [OF it holds_finite [OF h]]
  show ?thesis
  proof (cases "count (store st ! a) = 0")
    case True
    then show ?thesis
      using holds_safe [OF h True] cs s by (simp add: resolve_cells_def sound_fold_resolve_safe)
  next
    case False
    show ?thesis
    proof (cases "int (card (cells (store st ! a))) = count (store st ! a)")
      case True
      then show ?thesis
        using False holds_mine [OF h True] cs s
        by (simp add: resolve_cells_def sound_fold_resolve_mine)
    next
      case False
      then show ?thesis using \<open>count (store st ! a) \<noteq> 0\<close> s by (simp add: resolve_cells_def)
    qed
  qed
qed

text \<open>What \<^verbatim>\<open>list.remove\<close> does to the knowledge list.\<close>

lemma list_remove_first:
  "\<forall>p \<in> set ps. h ! p \<noteq> h ! a \<Longrightarrow> list_remove h a (ps @ a # as) = Some (ps @ as)"
  by (induction ps) simp_all

lemma list_remove_Some:
  "list_remove h a ks = Some ks' \<Longrightarrow> set ks' \<subseteq> set ks \<and> (distinct ks \<longrightarrow> distinct ks')"
proof (induction ks arbitrary: ks')
  case Nil
  then show ?case by simp
next
  case (Cons k ks)
  show ?case
  proof (cases "h ! k = h ! a")
    case True
    with Cons.prems show ?thesis by auto
  next
    case False
    with Cons.prems obtain r where r: "list_remove h a ks = Some r" "ks' = k # r" by auto
    from Cons.IH [OF r(1)] r(2) show ?thesis by auto
  qed
qed

lemma list_remove_mem: "list_remove h a ks = Some ks' \<Longrightarrow> x \<in> set ks' \<Longrightarrow> x \<in> set ks"
  using list_remove_Some by blast

lemma list_contains_remove:
  "list_contains h a ks \<Longrightarrow> \<exists>ks'. list_remove h a ks = Some ks'"
  by (induction ks) (auto simp: list_contains_def)

lemma resolve_fields:
  assumes "resolve ord a st = Inr st'"
  shows "height st' = height st" "width st' = width st" "moves_made st' = moves_made st"
    "length (store st') = length (store st)"
    "safes st \<subseteq> safes st'" "mines st \<subseteq> mines st'"
    "set (knowledge st') \<subseteq> set (knowledge st)"
  using assms resolve_cells_grows [of st ord a]
  by (auto simp: resolve_def Let_def split: if_splits option.splits dest: list_remove_mem)

lemma sound_resolve:
  assumes "iteration ord" "sound M st" "a < length (store st)" "resolve ord a st = Inr st'"
  shows "sound M st'"
proof -
  have "sound M (resolve_cells ord a st)" using assms(1-3) by (rule sound_resolve_cells)
  then show ?thesis using assms(4)
    by (auto simp: resolve_def Let_def sound_def split: if_splits option.splits)
qed

lemma resolve_all_fields:
  assumes "resolve_all ord as st = Inr st'"
  shows "height st' = height st \<and> width st' = width st \<and> moves_made st' = moves_made st \<and>
    length (store st') = length (store st) \<and>
    safes st \<subseteq> safes st' \<and> mines st \<subseteq> mines st' \<and> set (knowledge st') \<subseteq> set (knowledge st)"
  using assms
proof (induction as arbitrary: st)
  case Nil
  then show ?case by simp
next
  case (Cons a as)
  from Cons.prems obtain st1 where r: "resolve ord a st = Inr st1" "resolve_all ord as st1 = Inr st'"
    by (auto split: sum.splits)
  from resolve_fields [OF r(1)] Cons.IH [OF r(2)] show ?case by auto
qed

lemma sound_resolve_all:
  assumes "iteration ord" "sound M st" "\<forall>a \<in> set as. a < length (store st)"
    "resolve_all ord as st = Inr st'"
  shows "sound M st'"
  using assms(2-)
proof (induction as arbitrary: st)
  case Nil
  then show ?case by simp
next
  case (Cons a as)
  from Cons.prems obtain st1 where r: "resolve ord a st = Inr st1" "resolve_all ord as st1 = Inr st'"
    by (auto split: sum.splits)
  have "sound M st1" using assms(1) Cons.prems(1) _ r(1) by (rule sound_resolve) (use Cons.prems in simp)
  moreover have "\<forall>a \<in> set as. a < length (store st1)"
    using Cons.prems(2) resolve_fields(4) [OF r(1)] by simp
  ultimately show ?case using r(2) by (rule Cons.IH)
qed

text \<open>
  The first loop never raises: the sentences it has passed and kept are not empty, so
  the first sentence equal to an empty \<open>sent\<close> is \<open>sent\<close> itself.
\<close>

lemma resolve_step:
  assumes well_formed: "well_formed st" and k: "knowledge st = ps @ a # as"
    and ne: "\<forall>p \<in> set ps. card (cells (store st ! p)) \<noteq> 0"
  shows "\<exists>st' ps'. resolve ord a st = Inr st' \<and> well_formed st' \<and> knowledge st' = ps' @ as \<and>
           (\<forall>p \<in> set ps'. card (cells (store st' ! p)) \<noteq> 0)"
proof -
  define st1 where "st1 = resolve_cells ord a st"
  have k1: "knowledge st1 = ps @ a # as" and wf1: "well_formed st1"
    using well_formed k by (simp_all add: st1_def well_formed_def)
  have a: "a \<notin> set ps" using well_formed k by (auto simp: well_formed_def)
  have ne1: "\<forall>p \<in> set ps. card (cells (store st1 ! p)) \<noteq> 0"
  proof
    fix p assume p: "p \<in> set ps"
    with a have "p \<noteq> a" by auto
    then show "card (cells (store st1 ! p)) \<noteq> 0"
      using ne p by (simp add: st1_def resolve_cells_other)
  qed
  show ?thesis
  proof (cases "card (cells (store st1 ! a)) = 0")
    case True
    have "\<forall>p \<in> set ps. store st1 ! p \<noteq> store st1 ! a" using ne1 True by auto
    then have "list_remove (store st1) a (knowledge st1) = Some (ps @ as)"
      unfolding k1 by (rule list_remove_first)
    then have "resolve ord a st = Inr (st1\<lparr>knowledge := ps @ as\<rparr>)"
      using True by (simp add: resolve_def st1_def [symmetric])
    moreover have "well_formed (st1\<lparr>knowledge := ps @ as\<rparr>)" using wf1 k1 by (auto simp: well_formed_def)
    ultimately show ?thesis using ne1 by auto
  next
    case False
    then have "resolve ord a st = Inr st1" by (simp add: resolve_def st1_def [symmetric])
    moreover have "knowledge st1 = (ps @ [a]) @ as" using k1 by simp
    moreover have "\<forall>p \<in> set (ps @ [a]). card (cells (store st1 ! p)) \<noteq> 0" using ne1 False by auto
    ultimately show ?thesis using wf1 by blast
  qed
qed

lemma resolve_all_returns_aux:
  assumes "well_formed st" "knowledge st = ps @ as" "\<forall>p \<in> set ps. card (cells (store st ! p)) \<noteq> 0"
  shows "\<exists>st'. resolve_all ord as st = Inr st' \<and> well_formed st' \<and>
           (\<forall>p \<in> set (knowledge st'). card (cells (store st' ! p)) \<noteq> 0)"
  using assms
proof (induction as arbitrary: st ps)
  case Nil
  then show ?case by simp
next
  case (Cons a as)
  from resolve_step [OF Cons.prems]
  obtain st1 ps1 where r: "resolve ord a st = Inr st1" "well_formed st1" "knowledge st1 = ps1 @ as"
    "\<forall>p \<in> set ps1. card (cells (store st1 ! p)) \<noteq> 0" by blast
  from Cons.IH [OF r(2-4)] r(1) show ?case by simp
qed

lemma resolve_all_returns:
  assumes "well_formed st"
  shows "\<exists>st'. resolve_all ord (knowledge st) st = Inr st' \<and> well_formed st' \<and>
           (\<forall>p \<in> set (knowledge st'). card (cells (store st' ! p)) \<noteq> 0)"
  using resolve_all_returns_aux [OF assms, of "[]" "knowledge st"] by simp

subsection \<open>The double loop of add_knowledge\<close>

declare check.simps [simp del]

lemma fold_invariant:
  "(\<And>x s. x \<in> set xs \<Longrightarrow> P s \<Longrightarrow> P (f x s)) \<Longrightarrow> P s \<Longrightarrow> P (fold f xs s)"
  by (induction xs arbitrary: s) simp_all

lemma infer_eq:
  "infer ord set_o set_s st =
     (if store st ! set_o = store st ! set_s then st
      else if cells (store st ! set_s) \<subset> cells (store st ! set_o)
        then check ord (Some (length (store st))) (derive set_o set_s st)
      else st)"
  by (simp add: infer_def derive_def new_Sentence_def Let_def)

lemma derive_fields [simp]:
  "height (derive set_o set_s st) = height st" "width (derive set_o set_s st) = width st"
  "moves_made (derive set_o set_s st) = moves_made st"
  "safes (derive set_o set_s st) = safes st" "mines (derive set_o set_s st) = mines st"
  "store (derive set_o set_s st) =
     store st @ [\<lparr>cells = cells (store st ! set_o) - cells (store st ! set_s),
                  count = count (store st ! set_o) - count (store st ! set_s)\<rparr>]"
  by (simp_all add: derive_def Let_def)

lemma derive_knowledge:
  "\<exists>ks. knowledge (derive set_o set_s st) = ks @ [length (store st)] \<and>
        set ks \<subseteq> set (knowledge st) \<and> (distinct (knowledge st) \<longrightarrow> distinct ks)"
proof -
  let ?h = "store st @ [\<lparr>cells = cells (store st ! set_o) - cells (store st ! set_s),
                      count = count (store st ! set_o) - count (store st ! set_s)\<rparr>]"
  show ?thesis
  proof (cases "list_contains ?h set_s (knowledge st)")
    case True
    then obtain ks where ks: "list_remove ?h set_s (knowledge st) = Some ks"
      using list_contains_remove by blast
    then have "knowledge (derive set_o set_s st) = ks @ [length (store st)]"
      using True by (simp add: derive_def Let_def)
    then show ?thesis using list_remove_Some [OF ks] by blast
  next
    case False
    then have "knowledge (derive set_o set_s st) = knowledge st @ [length (store st)]"
      by (simp add: derive_def Let_def)
    then show ?thesis by blast
  qed
qed

lemma wf_derive: "well_formed st \<Longrightarrow> well_formed (derive set_o set_s st)"
proof -
  assume well_formed: "well_formed st"
  obtain ks where ks: "knowledge (derive set_o set_s st) = ks @ [length (store st)]"
    "set ks \<subseteq> set (knowledge st)" "distinct (knowledge st) \<longrightarrow> distinct ks"
    using derive_knowledge by blast
  have lt: "\<forall>a \<in> set ks. a < length (store st)" using ks(2) well_formed by (auto simp: well_formed_def)
  then have "length (store st) \<notin> set ks" by auto
  then show ?thesis using ks well_formed lt by (auto simp: well_formed_def less_Suc_eq)
qed

lemma sound_derive:
  assumes "sound M st" "set_o < length (store st)" "set_s < length (store st)"
    "cells (store st ! set_s) \<subset> cells (store st ! set_o)"
  shows "sound M (derive set_o set_s st)"
proof -
  have "holds M (store st ! set_o)" "holds M (store st ! set_s)"
    using assms(1-3) by (simp_all add: sound_nth)
  then have "holds M \<lparr>cells = cells (store st ! set_o) - cells (store st ! set_s),
                      count = count (store st ! set_o) - count (store st ! set_s)\<rparr>"
    using assms(4) by (rule holds_difference)
  then show ?thesis using assms(1) by (simp add: sound_def)
qed

lemma infer_fields [simp]:
  "height (infer ord set_o set_s st) = height st" "width (infer ord set_o set_s st) = width st"
  "moves_made (infer ord set_o set_s st) = moves_made st"
  by (simp_all add: infer_eq)

lemma infer_grows:
  "safes st \<subseteq> safes (infer ord set_o set_s st)" "mines st \<subseteq> mines (infer ord set_o set_s st)"
  "length (store st) \<le> length (store (infer ord set_o set_s st))"
  using check_grows [of "derive set_o set_s st" ord "Some (length (store st))"]
  by (simp_all add: infer_eq)

lemma wf_infer: "well_formed st \<Longrightarrow> well_formed (infer ord set_o set_s st)"
  by (simp add: infer_eq wf_derive wf_check)

lemma sound_infer:
  assumes "iteration ord" "sound M st" "set_o < length (store st)" "set_s < length (store st)"
  shows "sound M (infer ord set_o set_s st)"
proof (cases "store st ! set_o \<noteq> store st ! set_s \<and> cells (store st ! set_s) \<subset> cells (store st ! set_o)")
  case True
  then have "sound M (derive set_o set_s st)" using assms(2-4) by (simp add: sound_derive)
  then have "sound M (check ord (Some (length (store st))) (derive set_o set_s st))"
    by (intro sound_check assms(1)) simp_all
  then show ?thesis using True by (simp add: infer_eq)
next
  case False
  then show ?thesis using assms(2) by (auto simp: infer_eq)
qed

text \<open>What every round of the double loop keeps, the whole loop keeps.\<close>

lemma grown_refl [simp]: "grown st st"
  by (simp add: grown_def)

lemma grown_trans: "grown st st1 \<Longrightarrow> grown st1 st2 \<Longrightarrow> grown st st2"
  by (auto simp: grown_def)

lemma grown_infer: "grown st (infer ord set_o set_s st)"
  using infer_grows [of st ord set_o set_s] by (simp add: grown_def)

lemma infer_all_invariant:
  assumes step: "\<And>set_o set_s s. set_o \<in> set cks \<Longrightarrow> set_s \<in> set cks \<Longrightarrow> P s \<Longrightarrow> P (infer ord set_o set_s s)"
    and "P st"
  shows "P (infer_all ord cks st)"
  unfolding infer_all_def
  by (rule fold_invariant [where P = P], rule fold_invariant [where P = P], rule step) (use assms(2) in simp_all)

lemma grown_infer_all: "grown st (infer_all ord cks st)"
  by (rule infer_all_invariant [where P = "grown st"]) (auto intro: grown_trans grown_infer)

lemma wf_infer_all: "well_formed st \<Longrightarrow> well_formed (infer_all ord cks st)"
  by (rule infer_all_invariant [where P = well_formed]) (simp_all add: wf_infer)

lemma sound_infer_all:
  assumes "iteration ord" "sound M st" "\<forall>a \<in> set cks. a < length (store st)"
  shows "sound M (infer_all ord cks st)"
proof -
  let ?P = "\<lambda>s. sound M s \<and> length (store st) \<le> length (store s)"
  have "?P (infer_all ord cks st)"
  proof (rule infer_all_invariant [where P = ?P])
    fix set_o set_s s
    assume m: "set_o \<in> set cks" "set_s \<in> set cks" and P: "?P s"
    then have "set_o < length (store s)" "set_s < length (store s)" using assms(3) by auto
    then have "sound M (infer ord set_o set_s s)" using assms(1) P by (simp add: sound_infer)
    then show "?P (infer ord set_o set_s s)"
      using P infer_grows(3) [of s ord set_o set_s] by simp
  qed (use assms(2) in simp)
  then show ?thesis by simp
qed

subsection \<open>add_knowledge as a whole\<close>

lemma add_knowledge_eq:
  "add_knowledge ord c n st =
     (case resolve_all ord (knowledge (observed ord c n st)) (observed ord c n st) of
        Inl e \<Rightarrow> Inl e
      | Inr st7 \<Rightarrow> Inr (infer_all ord (knowledge st7) st7))"
  by (simp add: add_knowledge_def observed_def new_Sentence_def Let_def split_beta)

lemma observed_knowledge: "knowledge (observed ord c n st) = knowledge st @ [length (store st)]"
  by (simp add: observed_def Let_def)

lemma observed_length: "length (store (observed ord c n st)) = Suc (length (store st))"
  by (simp add: observed_def Let_def)

lemma wf_observed: "well_formed st \<Longrightarrow> well_formed (observed ord c n st)"
  by (auto simp: well_formed_def observed_knowledge observed_length less_Suc_eq)

lemma grown_observed: "grown st (observed ord c n st)"
  using check_grows [of "st\<lparr>moves_made := insert c (moves_made st), safes := insert c (safes st),
      store := store st @ [\<lparr>cells = fst (observation ord c n
         (st\<lparr>moves_made := insert c (moves_made st), safes := insert c (safes st)\<rparr>)),
       count = snd (observation ord c n
         (st\<lparr>moves_made := insert c (moves_made st), safes := insert c (safes st)\<rparr>))\<rparr>]\<rparr>"
      ord "Some (length (store st))"]
  by (auto simp: grown_def observed_def Let_def)

lemma observed_cell: "c \<in> safes (observed ord c n st)" "c \<in> moves_made (observed ord c n st)"
  using check_grows [of "st\<lparr>moves_made := insert c (moves_made st), safes := insert c (safes st),
      store := store st @ [\<lparr>cells = fst (observation ord c n
         (st\<lparr>moves_made := insert c (moves_made st), safes := insert c (safes st)\<rparr>)),
       count = snd (observation ord c n
         (st\<lparr>moves_made := insert c (moves_made st), safes := insert c (safes st)\<rparr>))\<rparr>]\<rparr>"
      ord "Some (length (store st))"]
  by (auto simp: observed_def Let_def)

lemma holds_observation:
  assumes it: "iteration ord" and fin: "finite (safes st)" "finite (mines st)"
    and s: "safes st \<inter> M = {}" and m: "mines st \<subseteq> M"
    and n: "n = int (card (neighbours (height st) (width st) c \<inter> M))"
  shows "holds M \<lparr>cells = fst (observation ord c n st), count = snd (observation ord c n st)\<rparr>"
proof -
  let ?N = "neighbours (height st) (width st) c"
  have disj: "{x \<in> ?N. x \<notin> safes st \<and> x \<in> mines st} = ?N \<inter> mines st" using s m by auto
  have sub: "?N \<inter> mines st \<subseteq> ?N \<inter> M" using m by auto
  have fN: "finite (?N \<inter> M)" "finite (?N \<inter> mines st)" by simp_all
  have "(?N - safes st - mines st) \<inter> M = (?N \<inter> M) - (?N \<inter> mines st)" using s by auto
  moreover have "card ((?N \<inter> M) - (?N \<inter> mines st)) = card (?N \<inter> M) - card (?N \<inter> mines st)"
    using sub fN by (simp add: card_Diff_subset)
  moreover have "card (?N \<inter> mines st) \<le> card (?N \<inter> M)" using sub fN by (simp add: card_mono)
  ultimately show ?thesis
    using n by (simp add: observation_eq [OF it] disj holds_def)
qed

lemma sound_observed:
  assumes it: "iteration ord" and s: "sound M st" and c: "c \<notin> M"
    and n: "n = int (card (neighbours (height st) (width st) c \<inter> M))"
  shows "sound M (observed ord c n st)"
proof -
  define st1 where "st1 = st\<lparr>moves_made := insert c (moves_made st), safes := insert c (safes st)\<rparr>"
  define st2 where "st2 = st1\<lparr>store := store st1 @ [\<lparr>cells = fst (observation ord c n st1),
                                               count = snd (observation ord c n st1)\<rparr>]\<rparr>"
  define st3 where "st3 = check ord (Some (length (store st))) st2"
  define st4 where "st4 = st3\<lparr>knowledge := knowledge st3 @ [length (store st)]\<rparr>"
  define st5 where "st5 = fold mark_safe (ord (safes st4)) st4"
  have eq: "observed ord c n st = fold mark_mine (ord (mines st5)) st5"
    by (simp add: observed_def Let_def st1_def st2_def st3_def st4_def st5_def)
  have s1: "sound M st1" using s c by (simp add: st1_def sound_def)
  have "holds M \<lparr>cells = fst (observation ord c n st1), count = snd (observation ord c n st1)\<rparr>"
    by (rule holds_observation [OF it]) (use s1 n in \<open>simp_all add: sound_def st1_def\<close>)
  then have s2: "sound M st2" using s1 by (simp add: st2_def sound_def)
  have s3: "sound M st3" unfolding st3_def
    by (intro sound_check it s2) (simp add: st2_def st1_def)
  have s4: "sound M st4" using s3 by (simp add: st4_def sound_def)
  have "set (ord (safes st4)) \<inter> M = {}"
    using s4 iteration_set [OF it, of "safes st4"] by (simp add: sound_def)
  then have s5: "sound M st5" unfolding st5_def using s4 by (rule sound_fold_mark_safe)
  have "set (ord (mines st5)) \<subseteq> M"
    using s5 iteration_set [OF it, of "mines st5"] by (simp add: sound_def)
  then show ?thesis unfolding eq using s5 by (rule sound_fold_mark_mine)
qed

text \<open>The call as a whole: it returns, and keeps what its parts keep.\<close>

lemma add_knowledge_returns:
  assumes "well_formed st"
  shows "\<exists>st'. add_knowledge ord c n st = Inr st' \<and> well_formed st'"
proof -
  from resolve_all_returns [OF wf_observed [OF assms], of ord ord c n]
  obtain st7 where r: "resolve_all ord (knowledge (observed ord c n st)) (observed ord c n st) = Inr st7"
    "well_formed st7" by blast
  then show ?thesis by (simp add: add_knowledge_eq wf_infer_all)
qed

lemma grown_add_knowledge:
  assumes "add_knowledge ord c n st = Inr st'"
  shows "grown st st'"
proof -
  from assms obtain st7 where
    r: "resolve_all ord (knowledge (observed ord c n st)) (observed ord c n st) = Inr st7"
    and st': "st' = infer_all ord (knowledge st7) st7"
    by (auto simp: add_knowledge_eq split: sum.splits)
  have "grown (observed ord c n st) st7"
    using resolve_all_fields [OF r] by (simp add: grown_def)
  with grown_observed have "grown st st7" by (rule grown_trans)
  then show ?thesis unfolding st' using grown_infer_all by (rule grown_trans)
qed

lemma add_knowledge_cell:
  assumes "add_knowledge ord c n st = Inr st'"
  shows "c \<in> safes st'" "c \<in> moves_made st'"
proof -
  from assms obtain st7 where
    r: "resolve_all ord (knowledge (observed ord c n st)) (observed ord c n st) = Inr st7"
    and st': "st' = infer_all ord (knowledge st7) st7"
    by (auto simp: add_knowledge_eq split: sum.splits)
  have "c \<in> safes st7" "c \<in> moves_made st7"
    using resolve_all_fields [OF r] observed_cell [of c ord n st] by auto
  then show "c \<in> safes st'" "c \<in> moves_made st'"
    unfolding st' using grown_infer_all [of st7 ord "knowledge st7"] by (auto simp: grown_def)
qed

lemma sound_add_knowledge:
  assumes it: "iteration ord" and well_formed: "well_formed st" and s: "sound M st" and c: "c \<notin> M"
    and n: "n = int (card (neighbours (height st) (width st) c \<inter> M))"
    and r: "add_knowledge ord c n st = Inr st'"
  shows "sound M st'"
proof -
  let ?st6 = "observed ord c n st"
  from r obtain st7 where
    r7: "resolve_all ord (knowledge ?st6) ?st6 = Inr st7"
    and st': "st' = infer_all ord (knowledge st7) st7"
    by (auto simp: add_knowledge_eq split: sum.splits)
  have wf6: "well_formed ?st6" using well_formed by (rule wf_observed)
  have s6: "sound M ?st6" using it s c n by (rule sound_observed)
  have s7: "sound M st7"
    using it s6 _ r7 by (rule sound_resolve_all) (use wf6 in \<open>simp add: well_formed_def\<close>)
  have "\<forall>a \<in> set (knowledge st7). a < length (store st7)"
    using resolve_all_fields [OF r7] wf6 by (auto simp: well_formed_def)
  with it s7 show ?thesis unfolding st' by (rule sound_infer_all)
qed

subsection \<open>What one pass records\<close>

lemma recorded_mono: "recorded s st \<Longrightarrow> grown st st' \<Longrightarrow> recorded s st'"
  by (auto simp: recorded_def grown_def)

lemma check_direct:
  assumes it: "iteration ord" and fin: "finite (cells (store st ! a))"
  shows "recorded (store st ! a) (check ord (Some a) st)"
proof -
  let ?s = "store st ! a"
  have cs: "set (ord (cells ?s)) = cells ?s" using it fin by (rule iteration_set)
  have safe: "cells ?s \<subseteq> safes (check ord (Some a) st)" if "count ?s = 0"
  proof -
    have "cells ?s \<subseteq> safes (fold mark_safe (ord (cells ?s)) st)" using cs by simp
    also have "\<dots> \<subseteq> safes (check ord (Some a) st)"
      unfolding check.simps Let_def using that
      by (auto simp: known_safes_def split: option.splits)
    finally show ?thesis .
  qed
  have mine: "cells ?s \<subseteq> mines (check ord (Some a) st)" if c: "int (card (cells ?s)) = count ?s"
  proof (cases "count ?s = 0")
    case True
    with c fin show ?thesis by simp
  next
    case False
    then have "check ord (Some a) st = fold mark_mine (ord (cells ?s)) st"
      unfolding check.simps Let_def using c by (simp add: known_safes_def known_mines_def)
    then show ?thesis using cs by simp
  qed
  show ?thesis using safe mine by (simp add: recorded_def)
qed

lemma resolve_cells_direct:
  assumes it: "iteration ord" and fin: "finite (cells (store st ! a))"
  shows "recorded (store st ! a) (resolve_cells ord a st)"
proof -
  let ?s = "store st ! a"
  have cs: "set (ord (cells ?s)) = cells ?s" using it fin by (rule iteration_set)
  have "cells ?s \<subseteq> safes (resolve_cells ord a st)" if "count ?s = 0"
    using that cs by (simp add: resolve_cells_def)
  moreover have "cells ?s \<subseteq> mines (resolve_cells ord a st)" if c: "int (card (cells ?s)) = count ?s"
  proof (cases "count ?s = 0")
    case True
    with c fin show ?thesis by simp
  next
    case False
    then show ?thesis using c cs by (simp add: resolve_cells_def)
  qed
  ultimately show ?thesis by (simp add: recorded_def)
qed

lemma resolve_other: "resolve ord b st = Inr st1 \<Longrightarrow> i \<noteq> b \<Longrightarrow> store st1 ! i = store st ! i"
  by (auto simp: resolve_def Let_def resolve_cells_other split: if_splits option.splits)

lemma resolve_direct:
  assumes "iteration ord" "finite (cells (store st ! a))" "resolve ord a st = Inr st1"
  shows "recorded (store st ! a) st1"
proof -
  have "recorded (store st ! a) (resolve_cells ord a st)"
    using assms(1,2) by (rule resolve_cells_direct)
  then show ?thesis using assms(3)
    by (auto simp: resolve_def Let_def recorded_def split: if_splits option.splits)
qed

lemma resolve_all_direct:
  assumes it: "iteration ord"
  shows "resolve_all ord as st = Inr st' \<Longrightarrow> a \<in> set as \<Longrightarrow> finite (cells (store st ! a)) \<Longrightarrow>
         recorded (store st ! a) st'"
proof (induction as arbitrary: st)
  case Nil
  then show ?case by simp
next
  case (Cons b bs)
  from Cons.prems(1) obtain st1 where r: "resolve ord b st = Inr st1" "resolve_all ord bs st1 = Inr st'"
    by (auto split: sum.splits)
  show ?case
  proof (cases "a = b")
    case True
    have "recorded (store st ! a) st1"
      using it Cons.prems(3) r(1) unfolding True by (rule resolve_direct)
    moreover have "grown st1 st'" using resolve_all_fields [OF r(2)] by (simp add: grown_def)
    ultimately show ?thesis by (rule recorded_mono)
  next
    case False
    then have eq: "store st1 ! a = store st ! a" using r(1) by (simp add: resolve_other)
    have "a \<in> set bs" using Cons.prems(2) False by simp
    from Cons.IH [OF r(2) this] Cons.prems(3) show ?thesis by (simp add: eq)
  qed
qed

lemma infer_direct:
  assumes it: "iteration ord" and fin: "finite (cells (store st ! set_o))"
    and ne: "store st ! set_o \<noteq> store st ! set_s"
    and sub: "cells (store st ! set_s) \<subset> cells (store st ! set_o)"
  shows "recorded (difference (store st ! set_o) (store st ! set_s)) (infer ord set_o set_s st)"
proof -
  let ?d = "derive set_o set_s st"
  have nth: "store ?d ! length (store st) = difference (store st ! set_o) (store st ! set_s)"
    by (simp add: difference_def)
  have "finite (cells (store ?d ! length (store st)))"
    unfolding nth using fin by (simp add: difference_def)
  from check_direct [OF it this]
  show ?thesis using ne sub by (simp add: infer_eq difference_def)
qed

lemma infer_all_rounds:
  "infer_all ord cks st = rounds ord (List.product cks cks) st"
  unfolding infer_all_def rounds_def by (rule fold_nested_product)

lemma rounds_append: "rounds ord (ps @ qs) st = rounds ord qs (rounds ord ps st)"
  by (simp add: rounds_def)

lemma rounds_Cons: "rounds ord (p # ps) st = rounds ord ps (infer ord (fst p) (snd p) st)"
  by (simp add: rounds_def)

lemma grown_rounds: "grown st (rounds ord ps st)"
  unfolding rounds_def
  by (rule fold_invariant [where P = "grown st"]) (auto intro: grown_trans grown_infer)

lemma sound_rounds:
  assumes "iteration ord" "sound M st" "\<forall>p \<in> set ps. fst p < length (store st) \<and> snd p < length (store st)"
  shows "sound M (rounds ord ps st)"
proof -
  let ?P = "\<lambda>s. sound M s \<and> length (store st) \<le> length (store s)"
  have "?P (rounds ord ps st)"
    unfolding rounds_def
  proof (rule fold_invariant [where P = ?P])
    fix p s
    assume m: "p \<in> set ps" and P: "?P s"
    then have "fst p < length (store s)" "snd p < length (store s)" using assms(3) by auto
    then have "sound M (infer ord (fst p) (snd p) s)" using assms(1) P by (simp add: sound_infer)
    then show "?P (infer ord (fst p) (snd p) s)"
      using P infer_grows(3) [of s ord "fst p" "snd p"] by simp
  qed (use assms(2) in simp)
  then show ?thesis by simp
qed


section \<open>The claims\<close>

subsection \<open>Sequences of calls\<close>

text \<open>
  Every call only adds to the sets of the state and keeps the references of the
  knowledge list distinct and inside the store, so that no call raises.
\<close>

lemma grown_mark_safe: "grown st (mark_safe c st)"
  by (auto simp: grown_def)

lemma grown_mark_mine: "grown st (mark_mine c st)"
  by (auto simp: grown_def)

lemma grown_run_call: "run_call ord choice x st = Inr st' \<Longrightarrow> grown st st'"
  by (cases x)
     (auto simp: grown_add_knowledge grown_mark_safe grown_mark_mine make_safe_move_def
        make_random_move_def Let_def)

lemma grown_run_calls: "run_calls ord choice xs st = Inr st' \<Longrightarrow> grown st st'"
proof (induction xs arbitrary: st)
  case Nil
  then show ?case by simp
next
  case (Cons x xs)
  then obtain st1 where r: "run_call ord choice x st = Inr st1" "run_calls ord choice xs st1 = Inr st'"
    by (auto split: sum.splits)
  from grown_run_call [OF r(1)] Cons.IH [OF r(2)] show ?case by (rule grown_trans)
qed

lemma wf_mark_safe: "well_formed st \<Longrightarrow> well_formed (mark_safe c st)"
  by (rule wf_same) simp_all

lemma wf_mark_mine: "well_formed st \<Longrightarrow> well_formed (mark_mine c st)"
  by (rule wf_same) simp_all

lemma wf_init: "well_formed (init h w)"
  by (simp add: well_formed_def init_def)

lemma run_call_returns: "well_formed st \<Longrightarrow> \<exists>st'. run_call ord choice x st = Inr st' \<and> well_formed st'"
  by (cases x)
     (auto simp: add_knowledge_returns wf_mark_safe wf_mark_mine make_safe_move_def
        make_random_move_def Let_def)

lemma run_calls_returns: "well_formed st \<Longrightarrow> \<exists>st'. run_calls ord choice xs st = Inr st' \<and> well_formed st'"
proof (induction xs arbitrary: st)
  case Nil
  then show ?case by simp
next
  case (Cons x xs)
  from run_call_returns [OF Cons.prems, of ord choice x]
  obtain st1 where r: "run_call ord choice x st = Inr st1" "well_formed st1" by blast
  from Cons.IH [OF r(2)] r(1) show ?case by simp
qed

lemma observe_all_append:
  "observe_all ord (xs @ ys) st =
     (case observe_all ord xs st of Inl e \<Rightarrow> Inl e | Inr s \<Rightarrow> observe_all ord ys s)"
  by (induction xs arbitrary: st) (auto split: sum.splits)

lemma observe_all_returns: "well_formed st \<Longrightarrow> \<exists>st'. observe_all ord obs st = Inr st' \<and> well_formed st'"
proof (induction obs arbitrary: st)
  case Nil
  then show ?case by simp
next
  case (Cons x obs)
  obtain c n where x: "x = (c, n)" by (cases x)
  from add_knowledge_returns [OF Cons.prems, of ord c n]
  obtain st1 where r: "add_knowledge ord c n st = Inr st1" "well_formed st1" by blast
  from Cons.IH [OF r(2)] r(1) show ?case by (simp add: x)
qed

lemma grown_observe_all: "observe_all ord obs st = Inr st' \<Longrightarrow> grown st st'"
proof (induction obs arbitrary: st)
  case Nil
  then show ?case by simp
next
  case (Cons x obs)
  obtain c n where x: "x = (c, n)" by (cases x)
  from Cons.prems obtain st1 where r: "add_knowledge ord c n st = Inr st1" "observe_all ord obs st1 = Inr st'"
    by (auto simp: x split: sum.splits)
  from grown_add_knowledge [OF r(1)] Cons.IH [OF r(2)] show ?case by (rule grown_trans)
qed

lemma double_loop_after:
  "observe_all ord (obs @ [(c, n)]) st0 =
     (case before_double_loop ord obs c n st0 of
        Inl e \<Rightarrow> Inl e
      | Inr st7 \<Rightarrow> Inr (infer_all ord (knowledge st7) st7))"
  by (simp add: observe_all_append before_double_loop_def add_knowledge_eq split: sum.splits)

text \<open>
  Along a truthful sequence of observations all the engine knows stays true of the
  board.
\<close>

lemma sound_init: "sound M (init h w)"
  by (simp add: sound_def init_def)

lemma truthful_take: "truthful g obs \<Longrightarrow> truthful g (take k obs)"
  by (auto simp: truthful_def dest: in_set_takeD)

lemma observe_all_sound:
  assumes it: "iteration ord" and t: "truthful g obs"
    and "well_formed st" "sound (board g) st" "height st = board_height g" "width st = board_width g"
  shows "\<exists>st'. observe_all ord obs st = Inr st' \<and> well_formed st' \<and> sound (board g) st'"
  using t assms(3-)
proof (induction obs arbitrary: st)
  case Nil
  then show ?case by simp
next
  case (Cons x obs)
  obtain c n where x: "x = (c, n)" by (cases x)
  from Cons.prems(1) have c: "c \<notin> board g" and n: "n = nearby_mines g c" and t: "truthful g obs"
    by (simp_all add: truthful_def x is_mine_def)
  from add_knowledge_returns [OF Cons.prems(2), of ord c n]
  obtain st1 where r: "add_knowledge ord c n st = Inr st1" "well_formed st1" by blast
  have n': "n = int (card (neighbours (height st) (width st) c \<inter> board g))"
    using n Cons.prems(4,5) by (simp add: nearby_mines_eq)
  have s1: "sound (board g) st1"
    using it Cons.prems(2,3) c n' r(1) by (rule sound_add_knowledge)
  have "height st1 = board_height g" "width st1 = board_width g"
    using grown_add_knowledge [OF r(1)] Cons.prems(4,5) by (simp_all add: grown_def)
  from Cons.IH [OF t r(2) s1 this] r(1) show ?case by (simp add: x)
qed

lemma sentence_derivable:
  assumes it: "iteration ord" and run: "observe_all ord obs (init h w) = Inr st"
    and s: "s \<in> set (sentences st)" and c: "count s = 0" and x: "x \<in> cells s"
  shows "derivable_safe h w obs x"
  unfolding derivable_safe_def
proof (intro allI impI)
  fix M
  assume t: "truthful \<lparr>board_height = h, board_width = w, board = M\<rparr> obs"
  from observe_all_sound [OF it t wf_init sound_init] run
  have "well_formed st" "sound M st" by (auto simp: init_def)
  then have "holds M s" using s by (auto simp: sentences_def well_formed_def sound_def)
  from holds_safe [OF this c] x show "x \<notin> M" by auto
qed

text \<open>
  After line 220 the cells of the new sentence are recorded when it can be resolved
  at once.
\<close>

lemma grown_after_observed:
  assumes "add_knowledge ord c n st = Inr st'"
  shows "grown (observed ord c n st) st'"
proof -
  from assms obtain st7 where
    r: "resolve_all ord (knowledge (observed ord c n st)) (observed ord c n st) = Inr st7"
    and st': "st' = infer_all ord (knowledge st7) st7"
    by (auto simp: add_knowledge_eq split: sum.splits)
  have "grown (observed ord c n st) st7"
    using resolve_all_fields [OF r] by (simp add: grown_def)
  then show ?thesis unfolding st' using grown_infer_all by (rule grown_trans)
qed

lemma observed_direct:
  fixes st :: MinesweeperAI and c :: cell
  assumes it: "iteration ord"
  defines "st1 \<equiv> st\<lparr>moves_made := insert c (moves_made st), safes := insert c (safes st)\<rparr>"
  shows "(snd (observation ord c n st1) = 0 \<longrightarrow> fst (observation ord c n st1) \<subseteq> safes (observed ord c n st)) \<and>
         (int (card (fst (observation ord c n st1))) = snd (observation ord c n st1) \<longrightarrow>
            fst (observation ord c n st1) \<subseteq> mines (observed ord c n st))"
proof -
  let ?cs = "fst (observation ord c n st1)" and ?k = "snd (observation ord c n st1)"
  define st2 where "st2 = st1\<lparr>store := store st1 @ [\<lparr>cells = ?cs, count = ?k\<rparr>]\<rparr>"
  define st3 where "st3 = check ord (Some (length (store st))) st2"
  define st4 where "st4 = st3\<lparr>knowledge := knowledge st3 @ [length (store st)]\<rparr>"
  define st5 where "st5 = fold mark_safe (ord (safes st4)) st4"
  have eq: "observed ord c n st = fold mark_mine (ord (mines st5)) st5"
    by (simp add: observed_def Let_def st1_def st2_def st3_def st4_def st5_def)
  have sub: "safes st3 \<subseteq> safes (observed ord c n st)" "mines st3 \<subseteq> mines (observed ord c n st)"
    by (auto simp: eq st5_def st4_def)
  have fin: "finite ?cs" by (simp add: observation_eq [OF it])
  have cs: "set (ord ?cs) = ?cs" using it fin by (rule iteration_set)
  have nth: "store st2 ! length (store st) = \<lparr>cells = ?cs, count = ?k\<rparr>"
    by (simp add: st2_def st1_def)
  have safe: "?cs \<subseteq> safes st3" if "?k = 0"
  proof -
    have "?cs \<subseteq> safes (fold mark_safe (ord ?cs) st2)" using cs by simp
    also have "\<dots> \<subseteq> safes st3"
      unfolding st3_def check.simps Let_def nth using that
      by (auto simp: known_safes_def split: option.splits)
    finally show ?thesis .
  qed
  have mine: "?cs \<subseteq> mines st3" if c: "int (card ?cs) = ?k"
  proof (cases "?k = 0")
    case True
    with c fin show ?thesis by simp
  next
    case False
    then have "st3 = fold mark_mine (ord ?cs) st2"
      unfolding st3_def check.simps Let_def nth using c
      by (simp add: known_safes_def known_mines_def nth)
    then show ?thesis using cs by simp
  qed
  show ?thesis using safe mine sub by blast
qed

subsection \<open>Claim C1\<close>

lemma card_insert_Int:
  "finite A \<Longrightarrow> x \<notin> A \<Longrightarrow>
   card (insert x A \<inter> M) = (if x \<in> M then Suc (card (A \<inter> M)) else card (A \<inter> M))"
  by simp

lemma neighbours_2_3_00: "neighbours 2 3 (0, 0) = {(0, 1), (1, 0), (1, 1)}"
  by (auto simp: neighbours_def)

lemma neighbours_2_3_02: "neighbours 2 3 (0, 2) = {(0, 1), (1, 1), (1, 2)}"
  by (auto simp: neighbours_def)

lemma derivable_example: "derivable_safe 2 3 [((0, 0), 1), ((0, 2), 2)] (1, 0)"
  unfolding derivable_safe_def
proof (intro allI impI)
  fix M :: "cell set"
  assume "truthful \<lparr>board_height = 2, board_width = 3, board = M\<rparr> [((0, 0), 1), ((0, 2), 2)]"
  then have "card ({(0, 1), (1, 0), (1, 1)} \<inter> M) = 1" "card ({(0, 1), (1, 1), (1, 2)} \<inter> M) = 2"
    by (simp_all add: truthful_def nearby_mines_eq neighbours_2_3_00 neighbours_2_3_02)
  then show "(1, 0) \<notin> M"
    by (cases "(0, 1) \<in> M"; cases "(1, 1) \<in> M"; cases "(1, 2) \<in> M"; cases "(1, 0) \<in> M")
       (simp_all add: card_insert_Int)
qed

text \<open>
  Claim C1 says that when \<^verbatim>\<open>add_knowledge\<close> returns, \<^verbatim>\<open>safes\<close> and \<^verbatim>\<open>mines\<close>
  hold every cell whose status follows from the observations. It fails: on the board of
  2 by 3 with mines at \<open>(0, 1)\<close> and \<open>(1, 2)\<close>, the truthful observations of
  \<open>(0, 0)\<close> with count 1 and \<open>(0, 2)\<close> with count 2 leave \<^verbatim>\<open>safes\<close> with the two
  observed cells only, and \<open>(1, 0)\<close> is safe in every placement of mines that agrees
  with the two observations. The two sentences overlap and neither is a subset of the
  other; the engine has no rule for such a pair.
\<close>

theorem derivable_cell_missing:
  "truthful \<lparr>board_height = 2, board_width = 3, board = {(0, 1), (1, 2)}\<rparr> [((0, 0), 1), ((0, 2), 2)] \<and>
   map_sum id safes (observe_all sorted_list_of_set [((0, 0), 1), ((0, 2), 2)] (init 2 3)) =
     Inr {(0, 0), (0, 2)} \<and>
   derivable_safe 2 3 [((0, 0), 1), ((0, 2), 2)] (1, 0) \<and> (1, 0) \<notin> {(0::int, 0::int), (0, 2)}"
proof -
  have a: "truthful \<lparr>board_height = 2, board_width = 3, board = {(0, 1), (1, 2)}\<rparr> [((0, 0), 1), ((0, 2), 2)]"
    by code_simp
  have b: "map_sum id safes (observe_all sorted_list_of_set [((0, 0), 1), ((0, 2), 2)] (init 2 3)) =
     Inr {(0, 0), (0, 2)}"
    by code_simp
  show ?thesis using a b derivable_example by simp
qed

text \<open>
  Claim C1 as amended. For every sequence of observations of safe cells of a board
  with the counts the board reports, every call of \<^verbatim>\<open>add_knowledge\<close> returns, and
  when the last one returns: every cell of \<^verbatim>\<open>safes\<close> is safe and every cell of
  \<^verbatim>\<open>mines\<close> is a mine in every placement of mines that agrees with the
  observations; the observed cell is in \<^verbatim>\<open>safes\<close>; and the two sets hold the cells
  of every sentence that one pass resolves at once (its cells in \<^verbatim>\<open>safes\<close> when its
  count is 0, in \<^verbatim>\<open>mines\<close> when its count is the number of its cells). These are
  the Sentence built from the new observation, every Sentence of the knowledge list as
  it is after line 220, where the known safe cells and mines have been taken out of it,
  and every Sentence that a round of the double loop makes from a pair \<^verbatim>\<open>set_o\<close>,
  \<^verbatim>\<open>set_s\<close> whose objects, when the round is reached, are unequal with the cells of
  \<^verbatim>\<open>set_s\<close> a strict subset of the cells of \<^verbatim>\<open>set_o\<close>.
\<close>

theorem one_pass_facts:
  assumes it: "iteration ord" and t: "truthful g (obs @ [(c, n)])"
  shows "\<exists>st st7 st'.
     observe_all ord obs (init (board_height g) (board_width g)) = Inr st \<and>
     resolve_all ord (knowledge (observed ord c n st)) (observed ord c n st) = Inr st7 \<and>
     add_knowledge ord c n st = Inr st' \<and> st' = infer_all ord (knowledge st7) st7 \<and>
     (\<forall>x \<in> safes st'. derivable_safe (board_height g) (board_width g) (obs @ [(c, n)]) x) \<and>
     (\<forall>x \<in> mines st'. derivable_mine (board_height g) (board_width g) (obs @ [(c, n)]) x) \<and>
     c \<in> safes st' \<and>
     recorded \<lparr>cells = fst (observation ord c n
                   (st\<lparr>moves_made := insert c (moves_made st), safes := insert c (safes st)\<rparr>)),
               count = snd (observation ord c n
                   (st\<lparr>moves_made := insert c (moves_made st), safes := insert c (safes st)\<rparr>))\<rparr> st' \<and>
     (\<forall>a \<in> set (knowledge (observed ord c n st)). recorded (store (observed ord c n st) ! a) st') \<and>
     (\<forall>pre set_o set_s post.
        List.product (knowledge st7) (knowledge st7) = pre @ (set_o, set_s) # post \<longrightarrow>
        store (rounds ord pre st7) ! set_o \<noteq> store (rounds ord pre st7) ! set_s \<longrightarrow>
        cells (store (rounds ord pre st7) ! set_s) \<subset> cells (store (rounds ord pre st7) ! set_o) \<longrightarrow>
        recorded (difference (store (rounds ord pre st7) ! set_o) (store (rounds ord pre st7) ! set_s)) st')"
proof -
  let ?h = "board_height g" and ?w = "board_width g" and ?M = "board g"
  have t0: "truthful g obs" and c: "c \<notin> ?M" and n: "n = nearby_mines g c"
    using t by (auto simp: truthful_def is_mine_def)
  from observe_all_sound [OF it t0 wf_init sound_init]
  obtain st where st: "observe_all ord obs (init ?h ?w) = Inr st" "well_formed st" "sound ?M st"
    by (auto simp: init_def)
  have hw: "height st = ?h" "width st = ?w"
    using grown_observe_all [OF st(1)] by (simp_all add: grown_def init_def)
  let ?st6 = "observed ord c n st"
  have wf6: "well_formed ?st6" using st(2) by (rule wf_observed)
  have n': "n = int (card (neighbours (height st) (width st) c \<inter> ?M))"
    using n hw by (simp add: nearby_mines_eq)
  have s6: "sound ?M ?st6" using it st(3) c n' by (rule sound_observed)
  from resolve_all_returns [OF wf6, of ord]
  obtain st7 where r7: "resolve_all ord (knowledge ?st6) ?st6 = Inr st7" "well_formed st7" by blast
  have lt6: "\<forall>a \<in> set (knowledge ?st6). a < length (store ?st6)"
    using wf6 by (simp add: well_formed_def)
  have s7: "sound ?M st7" using it s6 lt6 r7(1) by (rule sound_resolve_all)
  have lt7: "\<forall>a \<in> set (knowledge st7). a < length (store st7)"
    using r7(2) by (simp add: well_formed_def)
  define st' where "st' = infer_all ord (knowledge st7) st7"
  have a: "add_knowledge ord c n st = Inr st'"
    using r7(1) by (simp add: add_knowledge_eq st'_def)
  have g7: "grown st7 st'" unfolding st'_def by (rule grown_infer_all)
  have g6: "grown ?st6 st'" using a by (rule grown_after_observed)
  have all: "observe_all ord (obs @ [(c, n)]) (init ?h ?w) = Inr st'"
    using st(1) a by (simp add: observe_all_append)
  have snd: "safes st' \<inter> M = {} \<and> mines st' \<subseteq> M"
    if tM: "truthful \<lparr>board_height = ?h, board_width = ?w, board = M\<rparr> (obs @ [(c, n)])" for M
  proof -
    from observe_all_sound [OF it tM wf_init sound_init]
    obtain st'' where "observe_all ord (obs @ [(c, n)]) (init ?h ?w) = Inr st''" "sound M st''"
      by (auto simp: init_def)
    with all show ?thesis by (simp add: sound_def)
  qed
  have d1: "\<forall>x \<in> safes st'. derivable_safe ?h ?w (obs @ [(c, n)]) x"
    unfolding derivable_safe_def using snd by blast
  have d2: "\<forall>x \<in> mines st'. derivable_mine ?h ?w (obs @ [(c, n)]) x"
    unfolding derivable_mine_def using snd by blast
  have cell: "c \<in> safes st'" using a by (rule add_knowledge_cell)
  let ?st1 = "st\<lparr>moves_made := insert c (moves_made st), safes := insert c (safes st)\<rparr>"
  have new: "recorded \<lparr>cells = fst (observation ord c n ?st1), count = snd (observation ord c n ?st1)\<rparr> st'"
  proof -
    have "recorded \<lparr>cells = fst (observation ord c n ?st1), count = snd (observation ord c n ?st1)\<rparr> ?st6"
      using observed_direct [OF it, of c n st] by (simp add: recorded_def)
    then show ?thesis using g6 by (rule recorded_mono)
  qed
  have loop1: "\<forall>a \<in> set (knowledge ?st6). recorded (store ?st6 ! a) st'"
  proof
    fix a assume m: "a \<in> set (knowledge ?st6)"
    then have "holds ?M (store ?st6 ! a)" using s6 lt6 by (simp add: sound_nth)
    then have "finite (cells (store ?st6 ! a))" by (rule holds_finite)
    with it r7(1) m have "recorded (store ?st6 ! a) st7" by (rule resolve_all_direct)
    then show "recorded (store ?st6 ! a) st'" using g7 by (rule recorded_mono)
  qed
  have loop2: "recorded (difference (store (rounds ord pre st7) ! set_o) (store (rounds ord pre st7) ! set_s)) st'"
    if p: "List.product (knowledge st7) (knowledge st7) = pre @ (set_o, set_s) # post"
      and ne: "store (rounds ord pre st7) ! set_o \<noteq> store (rounds ord pre st7) ! set_s"
      and sub: "cells (store (rounds ord pre st7) ! set_s) \<subset> cells (store (rounds ord pre st7) ! set_o)"
    for pre set_o set_s post
  proof -
    let ?sk = "rounds ord pre st7"
    have mem: "\<forall>q \<in> set (pre @ (set_o, set_s) # post). fst q < length (store st7) \<and> snd q < length (store st7)"
      unfolding p [symmetric] using lt7 by auto
    then have sk: "sound ?M ?sk" by (intro sound_rounds it s7) simp
    have "set_o < length (store st7)" using mem by simp
    also have "\<dots> \<le> length (store ?sk)" using grown_rounds [of st7 ord pre] by (simp add: grown_def)
    finally have "holds ?M (store ?sk ! set_o)" using sk by (simp add: sound_nth)
    then have "finite (cells (store ?sk ! set_o))" by (rule holds_finite)
    from infer_direct [OF it this ne sub]
    have "recorded (difference (store ?sk ! set_o) (store ?sk ! set_s)) (infer ord set_o set_s ?sk)" .
    moreover have "st' = rounds ord post (infer ord set_o set_s ?sk)"
      by (simp add: st'_def infer_all_rounds p rounds_append rounds_Cons)
    ultimately show ?thesis using grown_rounds [of "infer ord set_o set_s ?sk" ord post]
      by (auto intro: recorded_mono)
  qed
  show ?thesis
    using st(1) r7(1) a st'_def d1 d2 cell new loop1 loop2 by blast
qed

text \<open>
  Two observations on the board of 2 by 3 with its mine at \<open>(1, 0)\<close>: the engine
  records \<open>(1, 2)\<close> as safe, and the theorem gives that it is safe in every placement
  that agrees with the two observations.
\<close>

theorem one_pass_facts_witness:
  "iteration sorted_list_of_set \<and>
   truthful \<lparr>board_height = 2, board_width = 3, board = {(1, 0)}\<rparr> ([((0, 0), 1)] @ [((0, 1), 1)]) \<and>
   map_sum id safes (observe_all sorted_list_of_set [((0, 0), 1), ((0, 1), 1)] (init 2 3)) =
     Inr {(0, 0), (0, 1), (0, 2), (1, 2)} \<and>
   derivable_safe 2 3 [((0, 0), 1), ((0, 1), 1)] (1, 2)"
proof -
  let ?g = "\<lparr>board_height = 2, board_width = 3, board = {(1, 0)}\<rparr>"
  have it: "iteration sorted_list_of_set" by (rule iteration_sorted)
  have t: "truthful ?g ([((0, 0), 1)] @ [((0, 1), 1)])" by code_simp
  have e: "map_sum id safes (observe_all sorted_list_of_set [((0, 0), 1), ((0, 1), 1)] (init 2 3)) =
     Inr {(0, 0), (0, 1), (0, 2), (1, 2)}"
    by code_simp
  from one_pass_facts [OF it t]
  obtain st st' where st: "observe_all sorted_list_of_set [((0, 0), 1)] (init 2 3) = Inr st"
    and st': "add_knowledge sorted_list_of_set (0, 1) 1 st = Inr st'"
    and d: "\<forall>x \<in> safes st'. derivable_safe 2 3 ([((0, 0), 1)] @ [((0, 1), 1)]) x"
    by auto
  have "observe_all sorted_list_of_set ([((0, 0), 1)] @ [((0, 1), 1)]) (init 2 3) = Inr st'"
    unfolding observe_all_append st using st' by simp
  with e have "safes st' = {(0, 0), (0, 1), (0, 2), (1, 2)}" by simp
  with d have "derivable_safe 2 3 ([((0, 0), 1)] @ [((0, 1), 1)]) (1, 2)" by simp
  then show ?thesis using it t e by simp
qed

text \<open>
  The propagation is one pass over the knowledge list and one double loop. On the
  board of 2 by 3 with mines at \<open>(0, 0)\<close> and \<open>(0, 2)\<close>, after the truthful
  observations of \<open>(1, 2)\<close>, \<open>(1, 0)\<close> and \<open>(0, 1)\<close> the knowledge list holds the
  sentence \<open>{(1, 1)} = 0\<close> and \<open>(1, 1)\<close> is not in \<^verbatim>\<open>safes\<close>: the double loop
  marked the two mines after the first loop had looked at the sentences.
\<close>

lemma resolvable_sentence_left:
  "truthful \<lparr>board_height = 2, board_width = 3, board = {(0, 0), (0, 2)}\<rparr>
     [((1, 2), 1), ((1, 0), 1), ((0, 1), 2)] \<and>
   distinct (map fst [((1::int, 2::int), 1::int), ((1, 0), 1), ((0, 1), 2)]) \<and>
   map_sum id safes
     (observe_all sorted_list_of_set [((1, 2), 1), ((1, 0), 1), ((0, 1), 2)] (init 2 3)) =
     Inr {(0, 1), (1, 0), (1, 2)} \<and>
   map_sum id sentences
     (observe_all sorted_list_of_set [((1, 2), 1), ((1, 0), 1), ((0, 1), 2)] (init 2 3)) =
     Inr [\<lparr>cells = {(1, 1)}, count = 0\<rparr>, \<lparr>cells = {}, count = 0\<rparr>, \<lparr>cells = {}, count = 0\<rparr>] \<and>
   derivable_safe 2 3 [((1, 2), 1), ((1, 0), 1), ((0, 1), 2)] (1, 1) \<and>
   (1, 1) \<notin> {(0::int, 1::int), (1, 0), (1, 2)}"
proof -
  let ?obs = "[((1::int, 2::int), 1::int), ((1, 0), 1), ((0, 1), 2)]"
  have a: "truthful \<lparr>board_height = 2, board_width = 3, board = {(0, 0), (0, 2)}\<rparr> ?obs"
    by code_simp
  have b: "map_sum id safes (observe_all sorted_list_of_set ?obs (init 2 3)) =
     Inr {(0, 1), (1, 0), (1, 2)}"
    by code_simp
  have c: "map_sum id sentences (observe_all sorted_list_of_set ?obs (init 2 3)) =
     Inr [\<lparr>cells = {(1, 1)}, count = 0\<rparr>, \<lparr>cells = {}, count = 0\<rparr>, \<lparr>cells = {}, count = 0\<rparr>]"
    by code_simp
  obtain st where st: "observe_all sorted_list_of_set ?obs (init 2 3) = Inr st"
    using observe_all_returns [OF wf_init] by blast
  with c have "\<lparr>cells = {(1, 1)}, count = 0\<rparr> \<in> set (sentences st)" by simp
  then have d: "derivable_safe 2 3 ?obs (1, 1)"
    by (rule sentence_derivable [OF iteration_sorted st]) simp_all
  show ?thesis using a b c d by simp
qed

subsection \<open>Claim C2\<close>

text \<open>
  The observations of \<open>(0, 0)\<close> and \<open>(0, 1)\<close>, each with count 1, are truthful on
  the board of 2 by 3 with its mine at \<open>(1, 0)\<close>.
\<close>

lemma left_behind_truthful:
  "truthful \<lparr>board_height = 2, board_width = 3, board = {(1, 0)}\<rparr> [((0, 0), 1), ((0, 1), 1)]"
  by code_simp

text \<open>
  Claim C2 says that after every call of \<^verbatim>\<open>add_knowledge\<close> no Sentence of the
  knowledge list has an empty set of cells. The first loop removes such sentences
  (lines 233 and 234); the double loop after it appends new sentences and calls
  \<^verbatim>\<open>check\<close>, which empties them, and nothing removes them before the call returns.
  After the two observations above the knowledge list ends with the sentence
  \<open>{} = 0\<close>.
\<close>

theorem empty_sentence_remains:
  "map_sum id sentences (observe_all sorted_list_of_set [((0, 0), 1), ((0, 1), 1)] (init 2 3)) =
     Inr [\<lparr>cells = {(1, 0), (1, 1)}, count = 1\<rparr>, \<lparr>cells = {}, count = 0\<rparr>]"
  by code_simp

subsection \<open>Claim C3\<close>

text \<open>
  With A the Sentence \<open>{(0, 0), (0, 1), (0, 2)} = 1\<close> and B the Sentence
  \<open>{(0, 0), (0, 1)} = 1\<close>, the body of the double loop, reached for
  \<^verbatim>\<open>set_o\<close> = A and \<^verbatim>\<open>set_s\<close> = B with the two objects as they are here,
  makes the Sentence \<open>{(0, 2)} = 0\<close>, appends it and calls \<^verbatim>\<open>check\<close> on it, and
  \<open>(0, 2)\<close> is in \<^verbatim>\<open>safes\<close> afterwards; when A and B are the whole knowledge
  list, \<open>(0, 2)\<close> is in \<^verbatim>\<open>safes\<close> after the double loop.
\<close>

lemma subset_inference:
  assumes it: "iteration ord"
    and A: "store st ! a = \<lparr>cells = {(0, 0), (0, 1), (0, 2)}, count = 1\<rparr>"
    and B: "store st ! b = \<lparr>cells = {(0, 0), (0, 1)}, count = 1\<rparr>"
  shows "infer ord a b st = check ord (Some (length (store st))) (derive a b st) \<and>
         last (store (derive a b st)) = \<lparr>cells = {(0, 2)}, count = 0\<rparr> \<and>
         last (knowledge (derive a b st)) = length (store st) \<and>
         (0, 2) \<in> safes (infer ord a b st) \<and>
         (knowledge st = [a, b] \<longrightarrow> (0, 2) \<in> safes (infer_all ord (knowledge st) st))"
proof -
  have "{(0::int, 0::int), (0, 1)} \<noteq> {(0, 0), (0, 1), (0, 2)}"
  proof
    assume "{(0::int, 0::int), (0, 1)} = {(0, 0), (0, 1), (0, 2)}"
    then have "{(0, 0), (0, 1), (0, 2)} \<subseteq> {(0::int, 0::int), (0, 1)}" by (rule equalityD2)
    then show False by simp
  qed
  then have sub: "cells (store st ! b) \<subset> cells (store st ! a)" unfolding A B by auto
  then have ne: "store st ! a \<noteq> store st ! b" by auto
  have d: "cells (store st ! a) - cells (store st ! b) = {(0, 2)}" unfolding A B by auto
  have i: "infer ord a b st = check ord (Some (length (store st))) (derive a b st)"
    using ne sub by (simp add: infer_eq)
  have l: "last (store (derive a b st)) = \<lparr>cells = {(0, 2)}, count = 0\<rparr>"
    using d by (simp add: A B)
  have k: "last (knowledge (derive a b st)) = length (store st)"
    using derive_knowledge [of a b st] by auto
  have nth: "store (derive a b st) ! length (store st) = \<lparr>cells = {(0, 2)}, count = 0\<rparr>"
    using d by (simp add: A B)
  have s: "(0, 2) \<in> safes (infer ord a b st)"
  proof -
    have "set (ord {(0, 2)}) = {(0::int, 2::int)}" using it by (simp add: iteration_set)
    then have "(0, 2) \<in> safes (fold mark_safe (ord {(0, 2)}) (derive a b st))" by simp
    also have "\<dots> \<subseteq> safes (infer ord a b st)"
      unfolding i check.simps Let_def nth
      by (auto simp: known_safes_def split: option.splits)
    finally show ?thesis .
  qed
  have "(0, 2) \<in> safes (infer_all ord (knowledge st) st)" if kn: "knowledge st = [a, b]"
  proof -
    have "infer ord a a st = st" by (simp add: infer_eq)
    then have "infer_all ord (knowledge st) st =
        infer ord b b (infer ord b a (infer ord a b st))"
      by (simp add: infer_all_def kn)
    moreover have "grown (infer ord a b st) (infer ord b b (infer ord b a (infer ord a b st)))"
      by (rule grown_trans [OF grown_infer grown_infer])
    ultimately show ?thesis using s by (auto simp: grown_def)
  qed
  then show ?thesis using i l k s by blast
qed

text \<open>
  The five observations below are truthful on the board of 3 by 3 with mines at
  \<open>(0, 0)\<close> and \<open>(2, 2)\<close>.
\<close>

lemma subset_pair_truthful:
  "truthful \<lparr>board_height = 3, board_width = 3, board = {(0, 0), (2, 2)}\<rparr>
     [((1, 0), 1), ((1, 2), 1), ((1, 1), 2), ((2, 1), 1), ((2, 0), 0)]"
  by code_simp

text \<open>
  Claim C3 says that when the knowledge list holds the Sentence A,
  \<open>{(0, 0), (0, 1), (0, 2)} = 1\<close>, and the Sentence B, \<open>{(0, 0), (0, 1)} = 1\<close>, the
  double loop makes the Sentence \<open>{(0, 2)} = 0\<close> from them and \<open>(0, 2)\<close> joins
  \<^verbatim>\<open>safes\<close>. In the fifth call of the run above the knowledge list holds A and B
  (and two more sentences) when the double loop starts. The rounds before the pair of A
  and B take B out of the list and mark \<open>(0, 0)\<close> a mine, which rewrites A; the difference
  of A and B is never made. The call returns with \<open>(0, 2)\<close> not in \<^verbatim>\<open>safes\<close> and
  with a sentence \<open>{(0, 2)} = 0\<close> in the list that nothing has resolved.
\<close>

theorem subset_pair_missed:
  "map_sum id sentences
     (before_double_loop sorted_list_of_set [((1, 0), 1), ((1, 2), 1), ((1, 1), 2), ((2, 1), 1)]
        (2, 0) 0 (init 3 3)) =
     Inr [\<lparr>cells = {(0, 0), (0, 1), (0, 2), (2, 2)}, count = 2\<rparr>,
          \<lparr>cells = {(0, 0), (0, 1)}, count = 1\<rparr>,
          \<lparr>cells = {(0, 1), (0, 2), (2, 2)}, count = 1\<rparr>,
          \<lparr>cells = {(0, 0), (0, 1), (0, 2)}, count = 1\<rparr>] \<and>
   map_sum id safes
     (observe_all sorted_list_of_set
        [((1, 0), 1), ((1, 2), 1), ((1, 1), 2), ((2, 1), 1), ((2, 0), 0)] (init 3 3)) =
     Inr {(1, 0), (1, 1), (1, 2), (2, 0), (2, 1)} \<and>
   map_sum id sentences
     (observe_all sorted_list_of_set
        [((1, 0), 1), ((1, 2), 1), ((1, 1), 2), ((2, 1), 1), ((2, 0), 0)] (init 3 3)) =
     Inr [\<lparr>cells = {(0, 2)}, count = 0\<rparr>, \<lparr>cells = {}, count = 0\<rparr>, \<lparr>cells = {}, count = 0\<rparr>,
          \<lparr>cells = {}, count = 0\<rparr>, \<lparr>cells = {}, count = 0\<rparr>]"
proof -
  have a: "map_sum id sentences
     (before_double_loop sorted_list_of_set [((1, 0), 1), ((1, 2), 1), ((1, 1), 2), ((2, 1), 1)]
        (2, 0) 0 (init 3 3)) =
     Inr [\<lparr>cells = {(0, 0), (0, 1), (0, 2), (2, 2)}, count = 2\<rparr>,
          \<lparr>cells = {(0, 0), (0, 1)}, count = 1\<rparr>,
          \<lparr>cells = {(0, 1), (0, 2), (2, 2)}, count = 1\<rparr>,
          \<lparr>cells = {(0, 0), (0, 1), (0, 2)}, count = 1\<rparr>]"
    by code_simp
  have b: "map_sum id safes
     (observe_all sorted_list_of_set
        [((1, 0), 1), ((1, 2), 1), ((1, 1), 2), ((2, 1), 1), ((2, 0), 0)] (init 3 3)) =
     Inr {(1, 0), (1, 1), (1, 2), (2, 0), (2, 1)}"
    by code_simp
  have c: "map_sum id sentences
     (observe_all sorted_list_of_set
        [((1, 0), 1), ((1, 2), 1), ((1, 1), 2), ((2, 1), 1), ((2, 0), 0)] (init 3 3)) =
     Inr [\<lparr>cells = {(0, 2)}, count = 0\<rparr>, \<lparr>cells = {}, count = 0\<rparr>, \<lparr>cells = {}, count = 0\<rparr>,
          \<lparr>cells = {}, count = 0\<rparr>, \<lparr>cells = {}, count = 0\<rparr>]"
    by code_simp
  show ?thesis using a b c by simp
qed

subsection \<open>Claim C4\<close>

text \<open>
  Claim C4. For every sequence of observations of safe cells of a board with the
  counts the board reports, every call of \<^verbatim>\<open>add_knowledge\<close> returns, and after each
  call (after the first \<open>k\<close> of them, for every \<open>k\<close>) \<^verbatim>\<open>safes\<close> and
  \<^verbatim>\<open>mines\<close> are disjoint.
\<close>

theorem safes_mines_disjoint:
  assumes "iteration ord" "truthful g obs"
  shows "\<exists>st. observe_all ord (take k obs) (init (board_height g) (board_width g)) = Inr st \<and>
              safes st \<inter> mines st = {}"
proof -
  from observe_all_sound [OF assms(1) truthful_take [OF assms(2), of k] wf_init sound_init]
  obtain st where st: "observe_all ord (take k obs) (init (board_height g) (board_width g)) = Inr st"
    "sound (board g) st" by (auto simp: init_def)
  from st(2) have "safes st \<inter> mines st = {}" by (auto simp: sound_def)
  with st(1) show ?thesis by blast
qed

text \<open>
  The board of 1 by 2 with its mine at \<open>(0, 1)\<close>: the observation of \<open>(0, 0)\<close>
  puts \<open>(0, 1)\<close> into \<^verbatim>\<open>mines\<close>.
\<close>

theorem safes_mines_disjoint_witness:
  "iteration sorted_list_of_set \<and>
   truthful \<lparr>board_height = 1, board_width = 2, board = {(0, 1)}\<rparr> [((0, 0), 1)] \<and>
   map_sum id mines (observe_all sorted_list_of_set [((0, 0), 1)] (init 1 2)) = Inr {(0, 1)} \<and>
   (\<exists>st. observe_all sorted_list_of_set (take 1 [((0, 0), 1)]) (init 1 2) = Inr st \<and>
         safes st \<inter> mines st = {})"
proof -
  have it: "iteration sorted_list_of_set" by (rule iteration_sorted)
  have t: "truthful \<lparr>board_height = 1, board_width = 2, board = {(0, 1)}\<rparr> [((0, 0), 1)]"
    by code_simp
  have e: "map_sum id mines (observe_all sorted_list_of_set [((0, 0), 1)] (init 1 2)) = Inr {(0, 1)}"
    by code_simp
  from safes_mines_disjoint [OF it t, of 1] it t e show ?thesis by simp
qed

subsection \<open>Claim C5\<close>

text \<open>
  Claim C5. For every sequence of observations of safe cells of a board with the
  counts the board reports, after each call of \<^verbatim>\<open>add_knowledge\<close> every Sentence of
  the knowledge list has a count from 0 to the number of its cells.
\<close>

theorem counts_within_bounds:
  assumes "iteration ord" "truthful g obs"
  shows "\<exists>st. observe_all ord (take k obs) (init (board_height g) (board_width g)) = Inr st \<and>
              (\<forall>s \<in> set (sentences st). 0 \<le> count s \<and> count s \<le> int (card (cells s)))"
proof -
  from observe_all_sound [OF assms(1) truthful_take [OF assms(2), of k] wf_init sound_init]
  obtain st where st: "observe_all ord (take k obs) (init (board_height g) (board_width g)) = Inr st"
    "well_formed st" "sound (board g) st" by (auto simp: init_def)
  have "\<forall>s \<in> set (sentences st). holds (board g) s"
    using st(2,3) by (auto simp: sentences_def well_formed_def sound_def)
  then have "\<forall>s \<in> set (sentences st). 0 \<le> count s \<and> count s \<le> int (card (cells s))"
    using holds_bounds by blast
  with st(1) show ?thesis by blast
qed

text \<open>
  Two observations on the board of 2 by 3 with its mine at \<open>(1, 0)\<close>.
\<close>

theorem counts_within_bounds_witness:
  "iteration sorted_list_of_set \<and>
   truthful \<lparr>board_height = 2, board_width = 3, board = {(1, 0)}\<rparr> [((0, 0), 1), ((0, 1), 1)] \<and>
   (\<exists>st. observe_all sorted_list_of_set (take 2 [((0, 0), 1), ((0, 1), 1)]) (init 2 3) = Inr st \<and>
         (\<forall>s \<in> set (sentences st). 0 \<le> count s \<and> count s \<le> int (card (cells s))))"
proof -
  have it: "iteration sorted_list_of_set" by (rule iteration_sorted)
  have t: "truthful \<lparr>board_height = 2, board_width = 3, board = {(1, 0)}\<rparr> [((0, 0), 1), ((0, 1), 1)]"
    by code_simp
  from counts_within_bounds [OF it t, of 2] it t show ?thesis by simp
qed

subsection \<open>Claim C6\<close>






subsection \<open>Claim C7\<close>

text \<open>
  Claim C7. Over every sequence of calls of \<^verbatim>\<open>add_knowledge\<close>,
  \<^verbatim>\<open>mark_mine\<close>, \<^verbatim>\<open>mark_safe\<close>, \<^verbatim>\<open>make_safe_move\<close> and
  \<^verbatim>\<open>make_random_move\<close>, the sets \<^verbatim>\<open>safes\<close>, \<^verbatim>\<open>mines\<close> and
  \<^verbatim>\<open>moves_made\<close> lose no element.
\<close>

theorem sets_never_shrink:
  assumes "run_calls ord choice xs st = Inr st'"
  shows "safes st \<subseteq> safes st' \<and> mines st \<subseteq> mines st' \<and> moves_made st \<subseteq> moves_made st'"
  using grown_run_calls [OF assms] by (simp add: grown_def)

text \<open>
  Five calls from a state that has one move made.
\<close>

theorem sets_never_shrink_witness:
  "\<exists>st'. run_calls sorted_list_of_set hd
       [Add_knowledge (0, 1) 1, Mark_mine (1, 0), Make_safe_move, Make_random_move, Mark_safe (1, 2)]
       ((init 2 3)\<lparr>moves_made := {(0, 0)}, safes := {(0, 0)}\<rparr>) = Inr st' \<and>
     {(0, 0)} \<subseteq> safes st' \<and> {(0, 0)} \<subseteq> moves_made st'"
proof -
  let ?st = "(init 2 3)\<lparr>moves_made := {(0, 0)}, safes := {(0, 0)}\<rparr>"
  let ?xs = "[Add_knowledge (0, 1) 1, Mark_mine (1, 0), Make_safe_move, Make_random_move, Mark_safe (1, 2)]"
  have "well_formed ?st" by (simp add: well_formed_def init_def)
  then obtain st' where r: "run_calls sorted_list_of_set hd ?xs ?st = Inr st'"
    using run_calls_returns by blast
  from sets_never_shrink [OF r] have "{(0, 0)} \<subseteq> safes st' \<and> {(0, 0)} \<subseteq> moves_made st'"
    by (simp add: init_def)
  with r show ?thesis by blast
qed

subsection \<open>Claim C8\<close>

text \<open>
  Claim C8. \<^verbatim>\<open>make_safe_move\<close> returns a cell of \<^verbatim>\<open>safes\<close> that is not in
  \<^verbatim>\<open>moves_made\<close> when there is one, returns \<^verbatim>\<open>None\<close> when there is none, and
  leaves the state as it was.
\<close>

theorem make_safe_move_correct:
  assumes "iteration ord" "finite (safes st)"
  shows "(case fst (make_safe_move ord st) of
            Some move \<Rightarrow> move \<in> safes st \<and> move \<notin> moves_made st
          | None \<Rightarrow> \<not> (\<exists>c \<in> safes st. c \<notin> moves_made st)) \<and>
         snd (make_safe_move ord st) = st"
proof -
  have s: "set (ord (safes st)) = safes st" using assms by (rule iteration_set)
  show ?thesis
  proof (cases "find (\<lambda>move. move \<notin> moves_made st) (ord (safes st))")
    case None
    then have "\<forall>x \<in> set (ord (safes st)). x \<in> moves_made st" by (auto simp: find_None_iff)
    then have "\<not> (\<exists>c \<in> safes st. c \<notin> moves_made st)" unfolding s by blast
    then show ?thesis unfolding make_safe_move_def fst_conv snd_conv None by simp
  next
    case (Some m)
    then have "m \<in> set (ord (safes st))" "m \<notin> moves_made st"
      by (auto simp: find_Some_iff)
    then have "m \<in> safes st \<and> m \<notin> moves_made st" unfolding s by simp
    then show ?thesis unfolding make_safe_move_def fst_conv snd_conv Some by simp
  qed
qed

text \<open>
  Two safe cells, one of them played: the other is the move.
\<close>

theorem make_safe_move_correct_witness:
  "iteration sorted_list_of_set \<and> finite {(0::int, 0::int), (0, 1)} \<and>
   fst (make_safe_move sorted_list_of_set
     ((init 2 2)\<lparr>safes := {(0, 0), (0, 1)}, moves_made := {(0, 0)}\<rparr>)) = Some (0, 1)"
proof -
  let ?st = "(init 2 2)\<lparr>safes := {(0, 0), (0, 1)}, moves_made := {(0, 0)}\<rparr>"
  have it: "iteration sorted_list_of_set" by (rule iteration_sorted)
  have fin: "finite (safes ?st)" by (simp add: init_def)
  have "fst (make_safe_move sorted_list_of_set ?st) \<noteq> None"
    using make_safe_move_correct [OF it fin] by (auto simp: init_def split: option.splits)
  then obtain m where m: "fst (make_safe_move sorted_list_of_set ?st) = Some m" by blast
  then have "m \<in> safes ?st \<and> m \<notin> moves_made ?st"
    using make_safe_move_correct [OF it fin] by auto
  then have "m = (0, 1)" by (auto simp: init_def)
  then show ?thesis using it m by simp
qed

subsection \<open>Claim C9\<close>

text \<open>
  Claim C9. In every state reached from the initial one by a sequence of calls,
  \<^verbatim>\<open>add_knowledge\<close> returns: its loops run over the elements of finite lists and
  sets fixed when the loop starts, and \<^verbatim>\<open>self.knowledge.remove\<close> never raises. The
  first loop over the knowledge list makes one round for each sentence the list had
  before the call and one for the new sentence; the double loop makes one round for
  each pair of the sentences that the first loop has left, which are no more.
\<close>

theorem add_knowledge_terminates:
  "\<exists>st st7 st'. run_calls ord choice xs (init h w) = Inr st \<and>
     resolve_all ord (knowledge (observed ord c n st)) (observed ord c n st) = Inr st7 \<and>
     add_knowledge ord c n st = Inr st' \<and> st' = infer_all ord (knowledge st7) st7 \<and>
     length (knowledge (observed ord c n st)) = Suc (length (knowledge st)) \<and>
     length (knowledge st7) \<le> Suc (length (knowledge st))"
proof -
  from run_calls_returns [OF wf_init, of ord choice xs h w]
  obtain st where st: "run_calls ord choice xs (init h w) = Inr st" "well_formed st" by blast
  let ?st6 = "observed ord c n st"
  have wf6: "well_formed ?st6" using st(2) by (rule wf_observed)
  from resolve_all_returns [OF wf6, of ord]
  obtain st7 where r: "resolve_all ord (knowledge ?st6) ?st6 = Inr st7" "well_formed st7" by blast
  have a: "add_knowledge ord c n st = Inr (infer_all ord (knowledge st7) st7)"
    using r(1) by (simp add: add_knowledge_eq)
  have l6: "length (knowledge ?st6) = Suc (length (knowledge st))"
    by (simp add: observed_knowledge)
  have "set (knowledge st7) \<subseteq> set (knowledge ?st6)"
    using resolve_all_fields [OF r(1)] by simp
  then have "card (set (knowledge st7)) \<le> card (set (knowledge ?st6))"
    by (simp add: card_mono)
  then have "length (knowledge st7) \<le> length (knowledge ?st6)"
    using r(2) wf6 by (simp add: well_formed_def distinct_card)
  with st(1) r(1) a l6 show ?thesis by auto
qed

text \<open>
  A third call after an observation and a marking.
\<close>

theorem add_knowledge_terminates_witness:
  "\<exists>st st'. run_calls sorted_list_of_set hd [Add_knowledge (0, 0) 1, Mark_safe (1, 1)] (init 2 3) = Inr st \<and>
     add_knowledge sorted_list_of_set (0, 1) 1 st = Inr st'"
  using add_knowledge_terminates [of sorted_list_of_set hd "[Add_knowledge (0, 0) 1, Mark_safe (1, 1)]" 2 3 "(0, 1)" 1]
  by blast

subsection \<open>Claim C10\<close>

text \<open>
  Claim C10. For the Sentence with no cells and count 0, \<^verbatim>\<open>known_mines()\<close> and
  \<^verbatim>\<open>known_safes()\<close> both return the empty set, not \<^verbatim>\<open>None\<close>.
\<close>

theorem empty_sentence_known:
  "known_mines \<lparr>cells = {}, count = 0\<rparr> = Some {} \<and>
   known_safes \<lparr>cells = {}, count = 0\<rparr> = Some {}"
  by (simp add: known_mines_def known_safes_def)

end
